theory Spec2Isabelle
  imports Complex_Main "HOL-Library.Sublist"
begin

section \<open>JavaScript strings and values\<close>

text \<open>
  A JavaScript string is a sequence of UTF-16 code units. The markers of the format are not
  ASCII (the section sign is U+00A7, the separator line is U+2500), so a string is a list of
  code units given by their numbers. \<open>asc\<close> reads an ASCII literal as such a list.
\<close>

type_synonym jsstring = "nat list"

definition asc :: "string \<Rightarrow> jsstring" where
  "asc s = map of_char s"

text \<open>The values a caller may pass where the parser expects content.\<close>

datatype jsval =
    JUndefined
  | JNull
  | JBool bool
  | JNumber int
  | JObject
  | JStr jsstring

text \<open>
  A number held in a variable of the parser: \<open>level\<close> starts from a property read, which
  is \<open>undefined\<close> when the property is missing, and \<open>Math.min\<close> and \<open>Math.max\<close> turn
  \<open>undefined\<close> into \<open>NaN\<close>.
\<close>

datatype jsnum = Undefined | NaN | Num int

fun math_min :: "jsnum \<Rightarrow> jsnum \<Rightarrow> jsnum" where
  "math_min (Num a) (Num b) = Num (min a b)"
| "math_min _ _ = NaN"

fun math_max :: "jsnum \<Rightarrow> jsnum \<Rightarrow> jsnum" where
  "math_max (Num a) (Num b) = Num (max a b)"
| "math_max _ _ = NaN"

text \<open>The relational operator \<open>>=\<close> on such values: false as soon as one side is not a number.\<close>

fun js_ge :: "jsnum \<Rightarrow> jsnum \<Rightarrow> bool" where
  "js_ge (Num a) (Num b) = (b \<le> a)"
| "js_ge _ _ = False"

subsection \<open>Whitespace, trim, split, join\<close>

text \<open>
  \<open>String.prototype.trim\<close> removes WhiteSpace and LineTerminator code units; the regular
  expression class \<open>\s\<close> is the same set.
\<close>

definition is_space :: "nat \<Rightarrow> bool" where
  "is_space c \<longleftrightarrow>
     c = 9 \<or> c = 10 \<or> c = 11 \<or> c = 12 \<or> c = 13 \<or> c = 32 \<or> c = 160 \<or> c = 5760
     \<or> (8192 \<le> c \<and> c \<le> 8202) \<or> c = 8232 \<or> c = 8233 \<or> c = 8239 \<or> c = 8287
     \<or> c = 12288 \<or> c = 65279"

definition trimStart :: "jsstring \<Rightarrow> jsstring" where
  "trimStart s = dropWhile is_space s"

definition trimEnd :: "jsstring \<Rightarrow> jsstring" where
  "trimEnd s = rev (dropWhile is_space (rev s))"

definition trim :: "jsstring \<Rightarrow> jsstring" where
  "trim s = trimEnd (trimStart s)"

definition startsWith :: "jsstring \<Rightarrow> jsstring \<Rightarrow> bool" where
  "startsWith s p = prefix p s"

text \<open>\<open>s.split(c)\<close> for a one-character separator; the empty string gives one empty piece.\<close>

fun split_char :: "nat \<Rightarrow> jsstring \<Rightarrow> jsstring list" where
  "split_char c [] = [[]]"
| "split_char c (x # xs) =
     (if x = c then [] # split_char c xs
      else (case split_char c xs of p # ps \<Rightarrow> (x # p) # ps | [] \<Rightarrow> [[x]]))"

text \<open>
  \<open>s.split(/[d]+/)\<close> and \<open>s.split(/dd+/)\<close>: the separators are the maximal runs of code units
  in \<open>d\<close> that are longer than \<open>m\<close> (\<open>m = 0\<close> for \<open>+\<close> on one character, \<open>m = 1\<close> for
  \<open>\n\n+\<close>). A run at the start or the end of the string leaves an empty piece there.
\<close>

function split_runs :: "nat \<Rightarrow> (nat \<Rightarrow> bool) \<Rightarrow> jsstring \<Rightarrow> jsstring list" where
  "split_runs m d [] = [[]]"
| "split_runs m d (x # xs) =
     (if m < length (takeWhile d (x # xs)) then [] # split_runs m d (dropWhile d (x # xs))
      else (case split_runs m d xs of p # ps \<Rightarrow> (x # p) # ps | [] \<Rightarrow> [[x]]))"
  by pat_completeness auto
termination
proof (relation "measure (\<lambda>(m, d, s). length s)")
  show "wf (measure (\<lambda>(m, d, s). length s))" by simp
next
  fix m :: nat and d :: "nat \<Rightarrow> bool" and x :: nat and xs :: "nat list"
  assume "m < length (takeWhile d (x # xs))"
  then have "d x" by (cases "d x") simp_all
  then have "length (dropWhile d (x # xs)) \<le> length xs"
    by (simp add: length_dropWhile_le)
  then show "((m, d, dropWhile d (x # xs)), (m, d, x # xs)) \<in> measure (\<lambda>(m, d, s). length s)"
    by simp
next
  fix m :: nat and d :: "nat \<Rightarrow> bool" and x :: nat and xs :: "nat list"
  show "((m, d, xs), (m, d, x # xs)) \<in> measure (\<lambda>(m, d, s). length s)" by simp
qed

fun join :: "jsstring \<Rightarrow> jsstring list \<Rightarrow> jsstring" where
  "join sep [] = []"
| "join sep [x] = x"
| "join sep (x # y # ys) = x @ sep @ join sep (y # ys)"

text \<open>\<open>s.indexOf(c)\<close>: the first position of \<open>c\<close>, or \<open>-1\<close>.\<close>

definition indexOf :: "jsstring \<Rightarrow> nat \<Rightarrow> int" where
  "indexOf s c = (if c \<in> set s then int (length (takeWhile (\<lambda>x. x \<noteq> c) s)) else - 1)"

text \<open>A non-negative integer in a template literal: its decimal digits.\<close>

function dec :: "nat \<Rightarrow> jsstring" where
  "dec n = (if n < 10 then [48 + n] else dec (n div 10) @ [48 + n mod 10])"
  by pat_completeness auto
termination
  by (relation "measure id") auto

declare dec.simps [simp del]

declare split_runs.simps [simp del]

section \<open>The QA.Stone parser\<close>

definition open_marker :: jsstring where
  "open_marker = [167] @ asc ''QASTONE'' @ [167]"

definition close_marker :: jsstring where
  "close_marker = [167] @ asc ''/QASTONE'' @ [167]"

text \<open>The separator line: the single code unit U+2500.\<close>

definition separator :: jsstring where
  "separator = [9472]"

record header =
  border_hash :: "jsstring option"
  glow_channel :: "jsstring option"
  stone_type :: "jsstring option"
  created :: "jsstring option"
  source_agent :: "jsstring option"
  lod_count :: int
  fortune :: "jsstring option"
  raw_header :: jsstring

text \<open>The parser object: its two caches (\<open>Map\<close>s keyed by strings).\<close>

record parser =
  lodCache :: "jsstring \<rightharpoonup> jsstring"
  headerCache :: "jsstring \<rightharpoonup> header"

definition new_parser :: parser where
  "new_parser = \<lparr>lodCache = Map.empty, headerCache = Map.empty\<rparr>"

definition clearCache :: "parser \<Rightarrow> parser" where
  "clearCache p = p\<lparr>lodCache := Map.empty, headerCache := Map.empty\<rparr>"

subsection \<open>isQAStone\<close>

text \<open>
  \<open>!content || typeof content !== 'string'\<close> rejects every value that is not a string, and
  the empty string.
\<close>

fun isQAStone :: "jsval \<Rightarrow> bool" where
  "isQAStone (JStr s) = (if s = [] then False else startsWith (trim s) open_marker)"
| "isQAStone _ = False"

subsection \<open>parseHeader\<close>

datatype error = Error jsstring

text \<open>
  \<open>parseInt(value, 10)\<close>: leading whitespace, an optional sign, then the longest run of
  decimal digits; \<open>None\<close> is \<open>NaN\<close>. The result is an unbounded integer here; the double of
  the source rounds beyond \<open>2^53\<close>, which the parser (it only compares with 4) cannot see.
\<close>

definition is_digit :: "nat \<Rightarrow> bool" where
  "is_digit c \<longleftrightarrow> 48 \<le> c \<and> c \<le> 57"

definition digits_value :: "jsstring \<Rightarrow> int" where
  "digits_value ds = foldl (\<lambda>a c. 10 * a + (int c - 48)) 0 ds"

definition parseInt10 :: "jsstring \<Rightarrow> int option" where
  "parseInt10 s =
     (let t = dropWhile is_space s;
          neg = (t \<noteq> [] \<and> hd t = 45);
          u = (if t \<noteq> [] \<and> (hd t = 45 \<or> hd t = 43) then tl t else t);
          ds = takeWhile is_digit u
      in if ds = [] then None
         else Some (if neg then - digits_value ds else digits_value ds))"

text \<open>One line of the header loop, after the separator test: the \<open>switch\<close> on the key.\<close>

definition header_line :: "jsstring \<Rightarrow> header \<Rightarrow> header" where
  "header_line line h =
     (let colonIndex = indexOf line 58 in
      if colonIndex > 0 then
        (let key = trim (take (nat colonIndex) line);
             val = trim (drop (nat colonIndex + 1) line)
         in if key = asc ''border_hash'' then h\<lparr>border_hash := Some val\<rparr>
            else if key = asc ''glow_channel'' then h\<lparr>glow_channel := Some val\<rparr>
            else if key = asc ''stone_type'' then h\<lparr>stone_type := Some val\<rparr>
            else if key = asc ''created'' then h\<lparr>created := Some val\<rparr>
            else if key = asc ''source_agent'' then h\<lparr>source_agent := Some val\<rparr>
            else if key = asc ''lod_count'' then
              h\<lparr>lod_count := (case parseInt10 val of None \<Rightarrow> 0 | Some n \<Rightarrow> n)\<rparr>
            else if key = asc ''fortune'' then h\<lparr>fortune := Some val\<rparr>
            else h)
      else h)"

text \<open>
  The header loop over the lines still to scan (the caller cuts them at 15), from index \<open>i\<close>.
  It returns the header and \<open>headerEndIndex\<close>, which stays 0 unless a separator line is met.
\<close>

fun scan_header :: "jsstring list \<Rightarrow> nat \<Rightarrow> header \<Rightarrow> header \<times> nat" where
  "scan_header [] i h = (h, 0)"
| "scan_header (l # ls) i h =
     (let line = trim l in
      if line = separator then (h, i)
      else scan_header ls (Suc i) (header_line line h))"

definition empty_header :: header where
  "empty_header = \<lparr>border_hash = None, glow_channel = None, stone_type = None, created = None,
     source_agent = None, lod_count = 0, fortune = None, raw_header = []\<rparr>"

definition parse_header_text :: "jsstring \<Rightarrow> header" where
  "parse_header_text s =
     (let lines = split_char 10 s;
          (h, headerEndIndex) = scan_header (take 15 lines) 0 empty_header
      in h\<lparr>raw_header := join [10] (take (headerEndIndex + 1) lines)\<rparr>)"

definition not_a_stone :: error where
  "not_a_stone = Error (asc ''Not a valid QA.Stone format'')"

fun parseHeader :: "parser \<Rightarrow> jsval \<Rightarrow> (error + header) \<times> parser" where
  "parseHeader p (JStr s) =
     (if \<not> isQAStone (JStr s) then (Inl not_a_stone, p)
      else
        (let cacheKey = take 100 s in
         case headerCache p cacheKey of
           Some h \<Rightarrow> (Inr h, p)
         | None \<Rightarrow>
             (let h = parse_header_text s
              in (Inr h, p\<lparr>headerCache := (headerCache p)(cacheKey \<mapsto> h)\<rparr>))))"
| "parseHeader p v = (Inl not_a_stone, p)"

subsection \<open>parseFortune\<close>

record fortune_parts =
  channel :: "jsstring option"
  category :: "jsstring option"
  complexity :: "jsstring option"

text \<open>\<open>parts[i] || null\<close>: a missing or empty part is \<open>null\<close>.\<close>

definition part_or_null :: "jsstring list \<Rightarrow> nat \<Rightarrow> jsstring option" where
  "part_or_null parts i = (if i < length parts \<and> parts ! i \<noteq> [] then Some (parts ! i) else None)"

fun parseFortune :: "jsstring option \<Rightarrow> fortune_parts" where
  "parseFortune None = \<lparr>channel = None, category = None, complexity = None\<rparr>"
| "parseFortune (Some f) =
     (if f = [] then \<lparr>channel = None, category = None, complexity = None\<rparr>
      else
        (let parts = split_char 58 f
         in \<lparr>channel = part_or_null parts 0, category = part_or_null parts 1,
              complexity = part_or_null parts 2\<rparr>))"

subsection \<open>extractLOD and extractLODsUpTo\<close>

text \<open>
  The loop over the lines, with its two variables \<open>lodContent\<close> and \<open>inLod\<close>; \<open>break\<close>
  returns what has been accumulated.
\<close>

fun scan_lod :: "jsstring \<Rightarrow> jsstring list \<Rightarrow> jsstring \<Rightarrow> bool \<Rightarrow> jsstring" where
  "scan_lod lodMarker [] lodContent inLod = lodContent"
| "scan_lod lodMarker (line # rest) lodContent inLod =
     (if startsWith line lodMarker then
        scan_lod lodMarker rest (trim (drop (length lodMarker) line)) True
      else if inLod then
        (if trim line = separator \<or> startsWith line (asc ''LOD-'') \<or> line = close_marker
         then lodContent
         else scan_lod lodMarker rest (lodContent @ [10] @ line) True)
      else scan_lod lodMarker rest lodContent inLod)"

definition lod_marker :: "nat \<Rightarrow> jsstring" where
  "lod_marker lv = asc ''LOD-'' @ dec lv @ asc '':''"

text \<open>The extraction itself, without the cache.\<close>

definition lod_text :: "jsstring \<Rightarrow> nat \<Rightarrow> jsstring" where
  "lod_text s lv = trim (scan_lod (lod_marker lv) (split_char 10 s) [] False)"

definition lod_cache_key :: "jsstring \<Rightarrow> nat \<Rightarrow> jsstring" where
  "lod_cache_key s lv = take 50 s @ asc '':'' @ dec lv"

fun extractLOD :: "parser \<Rightarrow> jsval \<Rightarrow> nat \<Rightarrow> jsval \<times> parser" where
  "extractLOD p (JStr s) lv =
     (if \<not> isQAStone (JStr s) then (JStr s, p)
      else
        (let cacheKey = lod_cache_key s lv in
         case lodCache p cacheKey of
           Some r \<Rightarrow> (JStr r, p)
         | None \<Rightarrow>
             (let r = lod_text s lv
              in (JStr r, p\<lparr>lodCache := (lodCache p)(cacheKey \<mapsto> r)\<rparr>))))"
| "extractLOD p v lv = (v, p)"

text \<open>Truthiness of a value, as \<open>if (lodContent)\<close> tests it.\<close>

fun truthy :: "jsval \<Rightarrow> bool" where
  "truthy JUndefined = False"
| "truthy JNull = False"
| "truthy (JBool b) = b"
| "truthy (JNumber n) = (n \<noteq> 0)"
| "truthy JObject = True"
| "truthy (JStr s) = (s \<noteq> [])"

text \<open>
  The loop of extractLODsUpTo over the levels still to visit. The result object has integer
  keys, which JavaScript enumerates in ascending order: it is the list of its entries.
\<close>

fun lods_loop :: "parser \<Rightarrow> jsval \<Rightarrow> nat list \<Rightarrow> (nat \<times> jsval) list \<times> parser" where
  "lods_loop p c [] = ([], p)"
| "lods_loop p c (lv # lvs) =
     (let (lodContent, p1) = extractLOD p c lv;
          (rest, p2) = lods_loop p1 c lvs
      in ((if truthy lodContent then [(lv, lodContent)] else []) @ rest, p2))"

definition extractLODsUpTo :: "parser \<Rightarrow> jsval \<Rightarrow> nat \<Rightarrow> (nat \<times> jsval) list \<times> parser" where
  "extractLODsUpTo p c maxLevel = lods_loop p c [0..<Suc maxLevel]"

subsection \<open>assessRequiredLOD\<close>

text \<open>
  \<open>this.channelRules[channel]\<close> reads a property of an object literal: one of its five own
  properties, or a property inherited from \<open>Object.prototype\<close>, or \<open>undefined\<close>. An
  inherited property is a function (an object for \<open>__proto__\<close>): it is truthy, so the
  \<open>||\<close> fallback is not taken, and it has no \<open>defaultLod\<close>.
\<close>

record rules =
  defaultLod :: jsnum
  complexThreshold :: "jsstring option"

definition object_prototype_names :: "jsstring list" where
  "object_prototype_names =
     [asc ''constructor'', asc ''__proto__'', asc ''hasOwnProperty'', asc ''isPrototypeOf'',
      asc ''propertyIsEnumerable'', asc ''toLocaleString'', asc ''toString'', asc ''valueOf'',
      asc ''__defineGetter__'', asc ''__defineSetter__'', asc ''__lookupGetter__'',
      asc ''__lookupSetter__'']"

definition channelRules :: "jsstring \<Rightarrow> rules option" where
  "channelRules c =
     (if c = asc ''task'' then Some \<lparr>defaultLod = Num 0, complexThreshold = Some (asc ''complex'')\<rparr>
      else if c = asc ''context'' then Some \<lparr>defaultLod = Num 1, complexThreshold = Some (asc ''medium'')\<rparr>
      else if c = asc ''handoff'' then Some \<lparr>defaultLod = Num 1, complexThreshold = Some (asc ''complex'')\<rparr>
      else if c = asc ''query'' then Some \<lparr>defaultLod = Num 0, complexThreshold = Some (asc ''medium'')\<rparr>
      else if c = asc ''data'' then Some \<lparr>defaultLod = Num 2, complexThreshold = Some (asc ''simple'')\<rparr>
      else if c \<in> set object_prototype_names then Some \<lparr>defaultLod = Undefined, complexThreshold = None\<rparr>
      else None)"

record task_context =
  needsFullContext :: bool
  quickAssessment :: bool

record assessment =
  level :: jsnum
  reason :: jsstring
  spawnHelper :: bool
  assessed_fortune :: fortune_parts
  assessed_channel :: jsstring

text \<open>
  assessRequiredLOD assigns \<open>level\<close>, \<open>reason\<close> and \<open>spawnHelper\<close> in four successive
  blocks. Each block is a function on the three variables, kept in the result record; the
  parsed fortune and the channel never change.
\<close>

definition lookup_rules :: "jsstring \<Rightarrow> rules" where
  "lookup_rules ch =
     (case channelRules ch of
        None \<Rightarrow> \<lparr>defaultLod = Num 1, complexThreshold = Some (asc ''medium'')\<rparr>
      | Some r \<Rightarrow> r)"

definition initial_assessment :: "header \<Rightarrow> assessment" where
  "initial_assessment hdr =
     (let ft = parseFortune (fortune hdr);
          ch = (case glow_channel hdr of None \<Rightarrow> asc ''context''
                | Some g \<Rightarrow> if g = [] then asc ''context'' else g);
          rl = lookup_rules ch
      in \<lparr>level = defaultLod rl, reason = asc ''Default for '' @ ch @ asc '' channel'',
          spawnHelper = False, assessed_fortune = ft, assessed_channel = ch\<rparr>)"

text \<open>Adjust based on complexity.\<close>

definition adjust_complexity :: "header \<Rightarrow> fortune_parts \<Rightarrow> assessment \<Rightarrow> assessment" where
  "adjust_complexity hdr ft a =
     (if complexity ft = Some (asc ''simple'') then
        a\<lparr>level := math_min (level a) (Num 0), reason := asc ''Simple task, LOD-0 sufficient''\<rparr>
      else if complexity ft = Some (asc ''complex'') then
        (if lod_count hdr \<ge> 4 then
           a\<lparr>level := math_max (level a) (Num 2), spawnHelper := True,
             reason := asc ''Very complex, spawning helper for LOD-3''\<rparr>
         else
           a\<lparr>level := math_max (level a) (Num 2), reason := asc ''Complex task, need full context''\<rparr>)
      else a)"

text \<open>Adjust based on task context: needsFullContext.\<close>

definition adjust_full_context :: "task_context \<Rightarrow> assessment \<Rightarrow> assessment" where
  "adjust_full_context ctx a =
     (if needsFullContext ctx then
        a\<lparr>level := math_max (level a) (Num 2), reason := asc ''Task requires full context''\<rparr>
      else a)"

text \<open>Adjust based on task context: quickAssessment.\<close>

definition adjust_quick :: "task_context \<Rightarrow> assessment \<Rightarrow> assessment" where
  "adjust_quick ctx a =
     (if quickAssessment ctx then a\<lparr>level := Num 0, reason := asc ''Quick assessment mode''\<rparr>
      else a)"

text \<open>Adjust based on stone type.\<close>

definition adjust_stone_type :: "header \<Rightarrow> fortune_parts \<Rightarrow> assessment \<Rightarrow> assessment" where
  "adjust_stone_type hdr ft a =
     (if stone_type hdr = Some (asc ''handoff'') \<and> complexity ft \<noteq> Some (asc ''simple'') then
        a\<lparr>level := math_max (level a) (Num 1), reason := asc ''Handoff requires at least LOD-1''\<rparr>
      else a)"

definition assessRequiredLOD :: "header \<Rightarrow> task_context \<Rightarrow> assessment" where
  "assessRequiredLOD hdr ctx =
     (let ft = parseFortune (fortune hdr)
      in adjust_stone_type hdr ft
           (adjust_quick ctx
              (adjust_full_context ctx
                 (adjust_complexity hdr ft (initial_assessment hdr)))))"

subsection \<open>estimateTokens and getTokenSavings\<close>

text \<open>
  \<open>content.split(/\s+/).length\<close> words, then \<open>Math.ceil(words * 0.75)\<close>: the product is
  exact in a double, and the ceiling of three quarters of \<open>w\<close> is \<open>(3 * w + 3) div 4\<close>.
\<close>

definition word_count :: "jsstring \<Rightarrow> nat" where
  "word_count s = length (split_runs 0 is_space s)"

definition estimateTokens :: "jsstring \<Rightarrow> int" where
  "estimateTokens s = (if s = [] then 0 else (3 * int (word_count s) + 3) div 4)"

text \<open>\<open>Array.prototype.join\<close> turns each element into a string first.\<close>

fun to_string :: "jsval \<Rightarrow> jsstring" where
  "to_string (JStr s) = s"
| "to_string JUndefined = []"
| "to_string JNull = []"
| "to_string (JBool b) = (if b then asc ''true'' else asc ''false'')"
| "to_string (JNumber n) = (if n < 0 then asc ''-'' @ dec (nat (- n)) else dec (nat n))"
| "to_string JObject = asc ''[object Object]''"

subsection \<open>The percentage: double-precision arithmetic\<close>

text \<open>
  \<open>Math.round((saved / fullTokens) * 100)\<close> is computed on IEEE 754 doubles: the quotient of
  the two integers is rounded to the nearest double, its product with 100 is rounded again,
  and \<open>Math.round\<close> takes the nearest integer, a half going up. A double is the pair of an
  integer mantissa \<open>m\<close> and a binary exponent \<open>k\<close>, standing for \<open>m * 2^k\<close>. Rounding
  keeps 53 significant bits and sends a tie to the even mantissa. The exponent range is not
  limited here: the two operands are integers far below \<open>2^53\<close> (they count words of a
  string), so they are doubles themselves and neither result overflows or is subnormal.
\<close>

text \<open>The number of binary digits of a positive integer.\<close>

function bit_length :: "int \<Rightarrow> int" where
  "bit_length n = (if n \<le> 0 then 0 else 1 + bit_length (n div 2))"
  by pat_completeness auto
termination
  by (relation "measure nat") auto

declare bit_length.simps [simp del]

text \<open>For positive \<open>n\<close> and \<open>b\<close>: the exponent \<open>e\<close> with \<open>2^e <= n / b < 2^(e + 1)\<close>.\<close>

definition binary_exponent :: "int \<Rightarrow> int \<Rightarrow> int" where
  "binary_exponent n b =
     (let d = bit_length n - bit_length b
      in if (if 0 \<le> d then b * 2 ^ nat d \<le> n else b \<le> n * 2 ^ nat (- d)) then d else d - 1)"

text \<open>The integer nearest to \<open>num / den\<close> (for \<open>den > 0\<close>), a tie going to the even one.\<close>

definition round_half_even :: "int \<Rightarrow> int \<Rightarrow> int" where
  "round_half_even num den =
     (let q = num div den; r = num mod den
      in if 2 * r < den then q
         else if den < 2 * r then q + 1
         else if even q then q else q + 1)"

text \<open>The double nearest to the fraction \<open>a / b\<close> (for \<open>b > 0\<close>).\<close>

definition to_double :: "int \<Rightarrow> int \<Rightarrow> int \<times> int" where
  "to_double a b =
     (if a = 0 then (0, 0)
      else
        (let n = \<bar>a\<bar>;
             s = 52 - binary_exponent n b;
             m = (if 0 \<le> s then round_half_even (n * 2 ^ nat s) b
                  else round_half_even n (b * 2 ^ nat (- s)))
         in (sgn a * m, - s)))"

text \<open>The product of a double with 100, rounded to a double.\<close>

fun times_100 :: "int \<times> int \<Rightarrow> int \<times> int" where
  "times_100 (m, k) =
     (if 0 \<le> k then to_double (100 * m * 2 ^ nat k) 1 else to_double (100 * m) (2 ^ nat (- k)))"

text \<open>\<open>Math.round\<close>: the integer \<open>floor(x + 1/2)\<close>.\<close>

fun math_round :: "int \<times> int \<Rightarrow> int" where
  "math_round (m, k) =
     (if 0 \<le> k then m * 2 ^ nat k else (2 * m + 2 ^ nat (- k)) div 2 ^ nat (1 - k))"

definition round_percentage :: "int \<Rightarrow> int \<Rightarrow> int" where
  "round_percentage sv fT = math_round (times_100 (to_double sv fT))"

text \<open>
  The result object. The early return for content that is not a stone has no
  \<open>loadedTokens\<close> property: \<open>None\<close> is the absent property.
\<close>

record token_savings =
  saved :: int
  percentage :: int
  headerTokens :: int
  loadedTokens :: "int option"
  fullTokens :: int

definition getTokenSavings ::
  "parser \<Rightarrow> jsval \<Rightarrow> nat \<Rightarrow> (error + token_savings) \<times> parser" where
  "getTokenSavings p c loadedLevel =
     (if \<not> isQAStone c then
        (Inr \<lparr>saved = 0, percentage = 0, headerTokens = 0, loadedTokens = None,
              fullTokens = 0\<rparr>, p)
      else
        (case parseHeader p c of
           (Inl e, p1) \<Rightarrow> (Inl e, p1)
         | (Inr hdr, p1) \<Rightarrow>
             (let hT = estimateTokens (raw_header hdr);
                  (allLods, p2) = extractLODsUpTo p1 c 3;
                  fullContent = join [10, 10] (map (to_string \<circ> snd) allLods);
                  fT = estimateTokens fullContent;
                  (loadedLods, p3) = extractLODsUpTo p2 c loadedLevel;
                  loadedContent = join [10, 10] (map (to_string \<circ> snd) loadedLods);
                  lT = estimateTokens loadedContent + hT;
                  sv = fT - lT;
                  pc = (if fT > 0 then round_percentage sv fT else 0)
              in (Inr \<lparr>saved = sv, percentage = pc, headerTokens = hT, loadedTokens = Some lT,
                       fullTokens = fT\<rparr>, p3))))"

section \<open>Building a stone\<close>

subsection \<open>The hash\<close>

text \<open>
  \<open>hash << 5\<close> and \<open>hash & hash\<close> convert to a signed 32-bit integer; the subtraction and
  the addition between them are exact.
\<close>

definition toInt32 :: "int \<Rightarrow> int" where
  "toInt32 x = (x + 2 ^ 31) mod 2 ^ 32 - 2 ^ 31"

definition hash_step :: "int \<Rightarrow> nat \<Rightarrow> int" where
  "hash_step h c = toInt32 ((toInt32 (h * 32) - h) + int c)"

definition hex_digit :: "int \<Rightarrow> nat" where
  "hex_digit d = (if d < 10 then nat (48 + d) else nat (87 + d))"

text \<open>\<open>n.toString(16)\<close> for an integer \<open>n\<close> that is not negative.\<close>

function to_hex :: "int \<Rightarrow> jsstring" where
  "to_hex n = (if n < 16 then [hex_digit n] else to_hex (n div 16) @ [hex_digit (n mod 16)])"
  by pat_completeness auto
termination
  by (relation "measure nat") auto

declare to_hex.simps [simp del]

definition padStart :: "nat \<Rightarrow> nat \<Rightarrow> jsstring \<Rightarrow> jsstring" where
  "padStart n c s = replicate (n - length s) c @ s"

definition generateHash :: "jsstring \<Rightarrow> jsstring" where
  "generateHash s = take 8 (padStart 8 48 (to_hex \<bar>foldl hash_step 0 s\<bar>))"

subsection \<open>The heuristic levels\<close>

definition is_sentence_end :: "nat \<Rightarrow> bool" where
  "is_sentence_end c \<longleftrightarrow> c = 46 \<or> c = 33 \<or> c = 63"

text \<open>LOD-0: first 1-2 sentences.\<close>

definition heuristic_lod0 :: "jsstring \<Rightarrow> jsstring" where
  "heuristic_lod0 s =
     (let sentences = filter (\<lambda>x. trim x \<noteq> []) (split_runs 0 is_sentence_end s);
          l0 = (case sentences of [] \<Rightarrow> take 100 s
                | x # _ \<Rightarrow> if x = [] then take 100 s else x);
          l0' = (if length sentences > 1 \<and> length l0 < 50
                 then l0 @ asc ''. '' @ sentences ! 1 else l0)
      in take 150 l0')"

text \<open>LOD-1: first paragraph.\<close>

definition heuristic_lod1 :: "jsstring \<Rightarrow> jsstring" where
  "heuristic_lod1 s =
     (let paragraphs = filter (\<lambda>x. trim x \<noteq> []) (split_runs 1 (\<lambda>c. c = 10) s);
          l1 = (case paragraphs of [] \<Rightarrow> take 500 s
                | x # _ \<Rightarrow> if x = [] then take 500 s else x);
          l1' = (if length l1 < 100 \<and> length paragraphs > 1
                 then l1 @ [10, 10] @ paragraphs ! 1 else l1)
      in take 500 l1')"

text \<open>LOD-2 is the full content, LOD-3 is empty.\<close>

definition generateLODs :: "jsstring \<Rightarrow> (nat \<times> jsstring) list" where
  "generateLODs s = [(0, heuristic_lod0 s), (1, heuristic_lod1 s), (2, s), (3, [])]"

subsection \<open>The fortune\<close>

text \<open>
  \<open>toLowerCase\<close>, as far as the patterns below can tell: they look for ASCII letters and
  test \<open>\b\<close>, which separates the ASCII word characters from everything else. The ASCII
  capitals map to their small letters; of all other code units only U+0130 (to \<open>i\<close> followed
  by U+0307) and U+212A (to \<open>k\<close>) produce an ASCII code unit. Every other code unit maps to
  code units outside ASCII and is kept as it is.
\<close>

definition lower_unit :: "nat \<Rightarrow> jsstring" where
  "lower_unit c =
     (if 65 \<le> c \<and> c \<le> 90 then [c + 32]
      else if c = 304 then [105, 775]
      else if c = 8490 then [107]
      else [c])"

definition toLowerCase :: "jsstring \<Rightarrow> jsstring" where
  "toLowerCase s = concat (map lower_unit s)"

definition is_word_char :: "nat \<Rightarrow> bool" where
  "is_word_char c \<longleftrightarrow> (48 \<le> c \<and> c \<le> 57) \<or> (65 \<le> c \<and> c \<le> 90) \<or> c = 95 \<or> (97 \<le> c \<and> c \<le> 122)"

text \<open>\<open>\b\<close> at position \<open>i\<close>: exactly one of the two neighbours is a word character.\<close>

definition word_boundary :: "jsstring \<Rightarrow> nat \<Rightarrow> bool" where
  "word_boundary s i \<longleftrightarrow>
     ((0 < i \<and> i \<le> length s \<and> is_word_char (s ! (i - 1))) \<noteq> (i < length s \<and> is_word_char (s ! i)))"

text \<open>\<open>/\b(w1|w2|...)\b/.test(s)\<close>: some alternative stands somewhere between two boundaries.\<close>

definition test_words :: "jsstring list \<Rightarrow> jsstring \<Rightarrow> bool" where
  "test_words ws s =
     list_ex (\<lambda>i. list_ex (\<lambda>w. take (length w) (drop i s) = w
                              \<and> word_boundary s i \<and> word_boundary s (i + length w)) ws)
       [0..<Suc (length s)]"

definition calculateFortune :: "jsstring \<Rightarrow> jsstring \<Rightarrow> jsstring" where
  "calculateFortune s ch =
     (let contentLower = toLowerCase s;
          cat =
            (if test_words [asc ''git'', asc ''repo'', asc ''github'', asc ''commit''] contentLower
               then asc ''repo''
             else if test_words [asc ''api'', asc ''endpoint'', asc ''route''] contentLower
               then asc ''api''
             else if test_words [asc ''database'', asc ''sql'', asc ''query''] contentLower
               then asc ''database''
             else if test_words [asc ''ui'', asc ''component'', asc ''style''] contentLower
               then asc ''ui''
             else if test_words [asc ''test'', asc ''spec'', asc ''assert''] contentLower
               then asc ''test''
             else asc ''general'');
          wordCount = word_count s;
          cx = (if wordCount > 200 then asc ''complex''
                else if wordCount > 50 then asc ''medium''
                else asc ''simple'')
      in ch @ asc '':'' @ cat @ asc '':'' @ cx)"

subsection \<open>buildStone\<close>

text \<open>
  The options object. An absent option (\<open>None\<close>) takes its default. A supplied \<open>lods\<close>
  object is the list of its entries, keyed by level.
\<close>

record build_options =
  content :: jsstring
  opt_glow_channel :: "jsstring option"
  opt_stone_type :: "jsstring option"
  opt_source_agent :: "jsstring option"
  lods :: "(nat \<times> jsstring) list option"

text \<open>The destructuring defaults of the three metadata options.\<close>

definition glow_channel_of :: "build_options \<Rightarrow> jsstring" where
  "glow_channel_of opts = (case opt_glow_channel opts of None \<Rightarrow> asc ''context'' | Some g \<Rightarrow> g)"

definition stone_type_of :: "build_options \<Rightarrow> jsstring" where
  "stone_type_of opts = (case opt_stone_type opts of None \<Rightarrow> asc ''clipboard'' | Some t \<Rightarrow> t)"

definition source_agent_of :: "build_options \<Rightarrow> jsstring" where
  "source_agent_of opts = (case opt_source_agent opts of None \<Rightarrow> asc ''user'' | Some a \<Rightarrow> a)"

text \<open>The loop that appends the blocks of the non-empty levels.\<close>

fun lod_blocks :: "(nat \<times> jsstring) list \<Rightarrow> nat list \<Rightarrow> jsstring" where
  "lod_blocks lodLevels [] = []"
| "lod_blocks lodLevels (lv # lvs) =
     (case map_of lodLevels lv of
        Some t \<Rightarrow>
          (if t \<noteq> [] then [10] @ asc ''LOD-'' @ dec lv @ asc '': '' @ t @ [10] @ separator else [])
      | None \<Rightarrow> [])
     @ lod_blocks lodLevels lvs"

text \<open>
  \<open>timestamp\<close> stands for \<open>new Date().toISOString()\<close>, read from the clock when the stone
  is built.
\<close>

definition buildStone :: "jsstring \<Rightarrow> build_options \<Rightarrow> jsstring" where
  "buildStone timestamp opts =
     (let bh = generateHash (content opts);
          lodLevels = (case lods opts of None \<Rightarrow> generateLODs (content opts) | Some l \<Rightarrow> l);
          ft = calculateFortune (content opts) (glow_channel_of opts);
          lodCount = length (filter (\<lambda>v. v \<noteq> []) (map snd lodLevels));
          stone = open_marker
            @ [10] @ asc ''border_hash: '' @ bh
            @ [10] @ asc ''glow_channel: '' @ glow_channel_of opts
            @ [10] @ asc ''stone_type: '' @ stone_type_of opts
            @ [10] @ asc ''created: '' @ timestamp
            @ [10] @ asc ''source_agent: '' @ source_agent_of opts
            @ [10] @ asc ''lod_count: '' @ dec lodCount
            @ [10] @ asc ''fortune: '' @ ft
            @ [10] @ separator
      in stone @ lod_blocks lodLevels [0..<4] @ [10] @ close_marker)"

section \<open>Notions used in the statements\<close>

text \<open>
  A text without a line feed. Metadata is plain when the channel, the stone type, the source
  agent and the timestamp are such texts: each then stays on its own header line.
\<close>

definition single_line :: "jsstring \<Rightarrow> bool" where
  "single_line s \<longleftrightarrow> 10 \<notin> set s"

definition plain_metadata :: "jsstring \<Rightarrow> build_options \<Rightarrow> bool" where
  "plain_metadata timestamp opts \<longleftrightarrow>
     single_line timestamp \<and> single_line (glow_channel_of opts)
     \<and> single_line (stone_type_of opts) \<and> single_line (source_agent_of opts)"

text \<open>
  What the caches answer for a stone \<open>s\<close> in the state \<open>p\<close>: the text extractLOD returns
  for a level, and the header parseHeader returns (the cached entry when there is one).
\<close>

definition lod_value :: "parser \<Rightarrow> jsstring \<Rightarrow> nat \<Rightarrow> jsstring" where
  "lod_value p s lv =
     (case lodCache p (lod_cache_key s lv) of Some r \<Rightarrow> r | None \<Rightarrow> lod_text s lv)"

definition header_value :: "parser \<Rightarrow> jsstring \<Rightarrow> header" where
  "header_value p s =
     (case headerCache p (take 100 s) of Some h \<Rightarrow> h | None \<Rightarrow> parse_header_text s)"

text \<open>The entries of the object extractLODsUpTo builds: the levels with a non-empty text.\<close>

definition lod_entries :: "parser \<Rightarrow> jsstring \<Rightarrow> nat list \<Rightarrow> (nat \<times> jsval) list" where
  "lod_entries p s lvs =
     concat (map (\<lambda>l. if lod_value p s l \<noteq> [] then [(l, JStr (lod_value p s l))] else []) lvs)"

text \<open>
  Content that the line-oriented format can carry unchanged in a LOD block: it has no
  whitespace at its start or its end, its first line does not end with whitespace (the text
  after the marker is trimmed on its own), and none of its later lines ends the block, that
  is, none starts with \<open>LOD-\<close>, is the close marker, or is a separator once trimmed.
\<close>

definition round_trip_safe :: "jsstring \<Rightarrow> bool" where
  "round_trip_safe c \<longleftrightarrow>
     (c = [] \<or> (\<not> is_space (hd c) \<and> \<not> is_space (last c)))
     \<and> (hd (split_char 10 c) = [] \<or> \<not> is_space (last (hd (split_char 10 c))))
     \<and> (\<forall>l\<in>set (tl (split_char 10 c)).
           \<not> startsWith l (asc ''LOD-'') \<and> trim l \<noteq> separator \<and> l \<noteq> close_marker)"

text \<open>The real number a double \<open>(m, k)\<close> stands for.\<close>

definition double_value :: "int \<times> int \<Rightarrow> real" where
  "double_value d = of_int (fst d) * 2 powi (snd d)"

text \<open>
  The percentage as the specification words it, \<open>round(100 * saved / fullTokens)\<close>, on
  exact numbers: the integer nearest to the exact quotient, a half going up.
\<close>

definition spec_percentage :: "int \<Rightarrow> int \<Rightarrow> int" where
  "spec_percentage sv fT = (200 * sv + fT) div (2 * fT)"

text \<open>A lowercase hexadecimal digit.\<close>

definition is_lower_hex :: "nat \<Rightarrow> bool" where
  "is_lower_hex c \<longleftrightarrow> (48 \<le> c \<and> c \<le> 57) \<or> (97 \<le> c \<and> c \<le> 102)"

section \<open>Example inputs\<close>

text \<open>A timestamp as \<open>toISOString\<close> prints it.\<close>

definition example_timestamp :: jsstring where
  "example_timestamp = asc ''2026-01-01T00:00:00.000Z''"

text \<open>The scenario of the specification: a task about a GitHub repository.\<close>

definition example_content :: jsstring where
  "example_content = asc ''Create GitHub repo for ztgi-ui, shared UI library.''"

definition example_options :: build_options where
  "example_options = \<lparr>content = example_content, opt_glow_channel = Some (asc ''task''),
     opt_stone_type = None, opt_source_agent = None, lods = None\<rparr>"

definition no_context :: task_context where
  "no_context = \<lparr>needsFullContext = False, quickAssessment = False\<rparr>"

text \<open>
  A source agent whose text continues on further lines: a \<open>lod_count\<close> line, a
  \<open>fortune\<close> line and a separator line.
\<close>

definition injected_agent :: jsstring where
  "injected_agent =
     asc ''u'' @ [10] @ asc ''lod_count: 9'' @ [10] @ asc ''fortune: a:b:complex'' @ [10] @ separator"

definition injected_options :: build_options where
  "injected_options = \<lparr>content = asc ''x'', opt_glow_channel = None, opt_stone_type = None,
     opt_source_agent = Some injected_agent, lods = None\<rparr>"

text \<open>Two contents with the same hash, built into stones with the default metadata.\<close>

definition stone_Aa :: jsstring where
  "stone_Aa = buildStone example_timestamp
     \<lparr>content = asc ''Aa'', opt_glow_channel = None, opt_stone_type = None,
      opt_source_agent = None, lods = None\<rparr>"

definition stone_BB :: jsstring where
  "stone_BB = buildStone example_timestamp
     \<lparr>content = asc ''BB'', opt_glow_channel = None, opt_stone_type = None,
      opt_source_agent = None, lods = None\<rparr>"

text \<open>
  A stone built with supplied levels of 6 and 47 words: with level 0 loaded, saved is 23 of
  fullTokens 40, and the exact percentage 57.5 is a tie.
\<close>

definition tie_options :: build_options where
  "tie_options = \<lparr>content = asc ''x'', opt_glow_channel = None, opt_stone_type = None,
     opt_source_agent = None,
     lods = Some [(0, asc ''a a a a a a''),
                  (1, asc ''a a a a a a a a a a a a a a a a a a a a a a a a a a a a a a a a a a a a a a a a a a a a a a a'')]\<rparr>"

definition tie_stone :: jsstring where
  "tie_stone = buildStone example_timestamp tie_options"

text \<open>Content that starts with a space.\<close>

definition padded_options :: build_options where
  "padded_options = \<lparr>content = asc '' a'', opt_glow_channel = None, opt_stone_type = None,
     opt_source_agent = None, lods = None\<rparr>"

section \<open>Basic facts about the text operations\<close>

lemma open_marker_val: "open_marker = [167, 81, 65, 83, 84, 79, 78, 69, 167]"
  by (simp add: open_marker_def asc_def)

lemma close_marker_val: "close_marker = [167, 47, 81, 65, 83, 84, 79, 78, 69, 167]"
  by (simp add: close_marker_def asc_def)

lemma not_space_167: "\<not> is_space 167"
  by (simp add: is_space_def)

text \<open>A string that neither starts nor ends with whitespace is its own trimmed form.\<close>

lemma trim_id:
  assumes "s \<noteq> []" and "\<not> is_space (hd s)" and "\<not> is_space (last s)"
  shows "trim s = s"
proof -
  from assms have front: "trimStart s = s"
    by (cases s) (simp_all add: trimStart_def)
  from assms have "rev s \<noteq> []" and "\<not> is_space (hd (rev s))"
    by (simp_all add: hd_rev)
  then have rear: "dropWhile is_space (rev s) = rev s"
    by (cases "rev s") simp_all
  show ?thesis
    by (simp add: trim_def trimEnd_def front rear)
qed

lemma split_char_nonempty: "split_char c s \<noteq> []"
  by (induction s) (auto split: list.splits)

lemma split_char_append: "split_char c (a @ c # b) = split_char c a @ split_char c b"
proof (induction a)
  case Nil
  show ?case by simp
next
  case (Cons x a)
  obtain p ps where "split_char c a = p # ps"
    using split_char_nonempty [of c a] by (cases "split_char c a") auto
  with Cons show ?case by (simp split: list.splits)
qed

lemma split_char_single: "c \<notin> set a \<Longrightarrow> split_char c a = [a]"
  by (induction a) auto

lemma split_char_line: "c \<notin> set a \<Longrightarrow> split_char c (a @ c # b) = a # split_char c b"
  by (simp add: split_char_append split_char_single)

lemma trimEnd_append_nonspace:
  assumes "\<not> is_space c"
  shows "trimEnd (a @ c # u) = a @ c # trimEnd u"
proof (cases "\<forall>x\<in>set (rev u). is_space x")
  case True
  then have "dropWhile is_space (rev u) = []" by simp
  with True assms show ?thesis by (simp add: trimEnd_def dropWhile_append)
next
  case False
  with assms show ?thesis by (simp add: trimEnd_def dropWhile_append)
qed

text \<open>A header line \<open>key: value\<close>, trimmed, and what the header loop reads from it.\<close>

lemma trim_key_line:
  assumes "k \<noteq> []" and "\<not> is_space (hd k)"
  shows "trim (k @ 58 # u) = k @ 58 # trimEnd u"
proof -
  from assms have "trimStart (k @ 58 # u) = k @ 58 # u"
    by (cases k) (simp_all add: trimStart_def)
  moreover have "\<not> is_space 58" by (simp add: is_space_def)
  ultimately show ?thesis by (simp add: trim_def trimEnd_append_nonspace)
qed

lemma takeWhile_upto: "c \<notin> set k \<Longrightarrow> takeWhile (\<lambda>x. x \<noteq> c) (k @ c # w) = k"
  by (induction k) auto

lemma indexOf_key: "58 \<notin> set k \<Longrightarrow> indexOf (k @ 58 # w) 58 = int (length k)"
  by (simp add: indexOf_def takeWhile_upto)

lemma header_line_key:
  assumes "k \<noteq> []" and "\<not> is_space (hd k)" and "\<not> is_space (last k)" and "58 \<notin> set k"
  shows "header_line (trim (k @ 58 # u)) h =
     (let val = trim (trimEnd u)
      in if k = asc ''border_hash'' then h\<lparr>border_hash := Some val\<rparr>
         else if k = asc ''glow_channel'' then h\<lparr>glow_channel := Some val\<rparr>
         else if k = asc ''stone_type'' then h\<lparr>stone_type := Some val\<rparr>
         else if k = asc ''created'' then h\<lparr>created := Some val\<rparr>
         else if k = asc ''source_agent'' then h\<lparr>source_agent := Some val\<rparr>
         else if k = asc ''lod_count'' then
           h\<lparr>lod_count := (case parseInt10 val of None \<Rightarrow> 0 | Some n \<Rightarrow> n)\<rparr>
         else if k = asc ''fortune'' then h\<lparr>fortune := Some val\<rparr>
         else h)"
proof -
  have t: "trim (k @ 58 # u) = k @ 58 # trimEnd u"
    using assms by (simp add: trim_key_line)
  have i: "indexOf (k @ 58 # trimEnd u) 58 = int (length k)"
    using assms by (simp add: indexOf_key)
  have p: "0 < int (length k)"
    using assms by simp
  have tk: "trim k = k"
    using assms by (simp add: trim_id)
  show ?thesis
    unfolding header_line_def t i using p by (simp add: Let_def tk)
qed

lemma buildStone_shape: "\<exists>body. buildStone ts opts = open_marker @ body @ close_marker"
  by (simp add: buildStone_def Let_def)

lemma trim_buildStone: "trim (buildStone ts opts) = buildStone ts opts"
proof -
  obtain body where b: "buildStone ts opts = open_marker @ body @ close_marker"
    using buildStone_shape by blast
  show ?thesis
    by (rule trim_id) (simp_all add: b open_marker_val close_marker_val not_space_167)
qed

lemma isQAStone_buildStone: "isQAStone (JStr (buildStone ts opts))"
proof -
  obtain body where b: "buildStone ts opts = open_marker @ body @ close_marker"
    using buildStone_shape by blast
  have "buildStone ts opts \<noteq> []"
    by (simp add: b open_marker_val)
  moreover have "startsWith (trim (buildStone ts opts)) open_marker"
    by (simp add: trim_buildStone) (simp add: b startsWith_def)
  ultimately show ?thesis by simp
qed

section \<open>Detection\<close>

text \<open>
  C6: isQAStone is true exactly on the strings whose trimmed form starts with the open marker.
  It is therefore true on every string that buildStone returns, whatever the options and
  the clock, and it answers false, without failing, on undefined, null, booleans, numbers,
  objects and the empty string.
\<close>

theorem isQAStone_detects:
  "isQAStone v = (\<exists>s. v = JStr s \<and> startsWith (trim s) open_marker)
   \<and> isQAStone (JStr (buildStone ts opts))
   \<and> \<not> isQAStone JUndefined \<and> \<not> isQAStone JNull \<and> \<not> isQAStone (JBool b)
   \<and> \<not> isQAStone (JNumber n) \<and> \<not> isQAStone JObject \<and> \<not> isQAStone (JStr [])"
proof -
  have empty: "\<not> startsWith (trim []) open_marker"
    by (simp add: startsWith_def trim_def trimStart_def trimEnd_def open_marker_val)
  have iff: "isQAStone v = (\<exists>s. v = JStr s \<and> startsWith (trim s) open_marker)"
  proof (cases v)
    case (JStr s)
    with empty show ?thesis by auto
  qed simp_all
  have built: "isQAStone (JStr (buildStone ts opts))"
    by (rule isQAStone_buildStone)
  from iff built show ?thesis by simp
qed

section \<open>Errors of parseHeader\<close>

text \<open>
  C4: parseHeader fails, with the error "Not a valid QA.Stone format", exactly when
  isQAStone is false of its argument; when isQAStone is true it returns a header. This holds
  in every state of the caches.
\<close>

theorem parseHeader_fails_iff_not_stone:
  "(fst (parseHeader p v) = Inl not_a_stone) = (\<not> isQAStone v)
   \<and> (\<exists>h. fst (parseHeader p v) = Inr h) = isQAStone v"
  by (cases v; simp add: Let_def split: option.splits)

section \<open>Token savings of content that is not a stone\<close>

text \<open>
  C8: for content that is not a stone, getTokenSavings returns the object of its early
  return, whatever the level and the caches: saved, percentage, headerTokens and fullTokens
  are 0, and there is no loadedTokens property. Here on the plain text of the specification's
  own scenario.
\<close>

theorem getTokenSavings_plain_text_lacks_loadedTokens:
  "fst (getTokenSavings new_parser (JStr (asc ''plain text, not a stone'')) 0)
     = Inr \<lparr>saved = 0, percentage = 0, headerTokens = 0, loadedTokens = None,
            fullTokens = 0\<rparr>"
proof -
  have "\<not> isQAStone (JStr (asc ''plain text, not a stone''))"
    by (simp add: asc_def trim_def trimStart_def trimEnd_def is_space_def startsWith_def
        open_marker_val)
  then show ?thesis
    by (simp add: getTokenSavings_def)
qed

text \<open>The same for every content that is not a stone.\<close>

lemma getTokenSavings_not_stone:
  "\<not> isQAStone c \<Longrightarrow>
   getTokenSavings p c lv
     = (Inr \<lparr>saved = 0, percentage = 0, headerTokens = 0, loadedTokens = None,
             fullTokens = 0\<rparr>, p)"
  by (simp add: getTokenSavings_def)

section \<open>The assessed level\<close>

text \<open>What each block does to the level, the channel and the helper flag.\<close>

lemma level_adjust_complexity:
  "level (adjust_complexity hdr ft a) =
     (if complexity ft = Some (asc ''simple'') then math_min (level a) (Num 0)
      else if complexity ft = Some (asc ''complex'') then math_max (level a) (Num 2)
      else level a)"
  by (simp add: adjust_complexity_def)

lemma level_adjust_full_context:
  "level (adjust_full_context ctx a) =
     (if needsFullContext ctx then math_max (level a) (Num 2) else level a)"
  by (simp add: adjust_full_context_def)

lemma level_adjust_quick:
  "level (adjust_quick ctx a) = (if quickAssessment ctx then Num 0 else level a)"
  by (simp add: adjust_quick_def)

lemma level_adjust_stone_type:
  "level (adjust_stone_type hdr ft a) =
     (if stone_type hdr = Some (asc ''handoff'') \<and> complexity ft \<noteq> Some (asc ''simple'')
      then math_max (level a) (Num 1) else level a)"
  by (simp add: adjust_stone_type_def)

lemmas level_adjust =
  level_adjust_complexity level_adjust_full_context level_adjust_quick level_adjust_stone_type

lemma channel_adjust:
  "assessed_channel (adjust_complexity hdr ft a) = assessed_channel a"
  "assessed_channel (adjust_full_context ctx a) = assessed_channel a"
  "assessed_channel (adjust_quick ctx a) = assessed_channel a"
  "assessed_channel (adjust_stone_type hdr ft a) = assessed_channel a"
  by (simp_all add: adjust_complexity_def adjust_full_context_def adjust_quick_def
      adjust_stone_type_def)

lemma spawnHelper_adjust:
  "spawnHelper (adjust_complexity hdr ft a) =
     (if complexity ft = Some (asc ''complex'') \<and> lod_count hdr \<ge> 4 then True else spawnHelper a)"
  "spawnHelper (adjust_full_context ctx a) = spawnHelper a"
  "spawnHelper (adjust_quick ctx a) = spawnHelper a"
  "spawnHelper (adjust_stone_type hdr ft a) = spawnHelper a"
  by (simp_all add: adjust_complexity_def adjust_full_context_def adjust_quick_def
      adjust_stone_type_def asc_def)

lemma assessed_channel_eq:
  "assessed_channel (assessRequiredLOD hdr ctx)
     = (case glow_channel hdr of None \<Rightarrow> asc ''context''
        | Some g \<Rightarrow> if g = [] then asc ''context'' else g)"
  by (simp add: assessRequiredLOD_def channel_adjust initial_assessment_def Let_def)

lemma level_initial:
  "level (initial_assessment hdr) = defaultLod (lookup_rules (assessed_channel (assessRequiredLOD hdr ctx)))"
  by (simp add: assessed_channel_eq) (simp add: initial_assessment_def Let_def)

lemma default_level_cases:
  assumes "ch \<notin> set object_prototype_names"
  shows "defaultLod (lookup_rules ch) \<in> {Num 0, Num 1, Num 2}"
  using assms by (simp add: lookup_rules_def channelRules_def)

text \<open>
  For a channel whose name is not a property inherited from \<open>Object.prototype\<close>, the level
  is 0, 1 or 2, and enabling needsFullContext does not decrease it.
\<close>

lemma assess_level_range:
  assumes "assessed_channel (assessRequiredLOD hdr ctx) \<notin> set object_prototype_names"
  shows "level (assessRequiredLOD hdr ctx) \<in> {Num 0, Num 1, Num 2}"
proof -
  have "level (initial_assessment hdr) \<in> {Num 0, Num 1, Num 2}"
    using default_level_cases [OF assms] by (simp add: level_initial [of hdr ctx])
  then show ?thesis
    by (auto simp add: assessRequiredLOD_def Let_def level_adjust)
qed

lemma assess_monotone:
  assumes "assessed_channel (assessRequiredLOD hdr ctx) \<notin> set object_prototype_names"
  shows "js_ge (level (assessRequiredLOD hdr (ctx\<lparr>needsFullContext := True\<rparr>)))
               (level (assessRequiredLOD hdr (ctx\<lparr>needsFullContext := False\<rparr>)))"
proof -
  have "level (initial_assessment hdr) \<in> {Num 0, Num 1, Num 2}"
    using default_level_cases [OF assms] by (simp add: level_initial [of hdr ctx])
  then show ?thesis
    by (auto simp add: assessRequiredLOD_def Let_def level_adjust)
qed

lemma constructor_default: "defaultLod (lookup_rules (asc ''constructor'')) = Undefined"
  by (simp add: lookup_rules_def channelRules_def object_prototype_names_def asc_def)

text \<open>
  C9: the claim is that the level is between 0 and 2 for every header. For a header whose
  glow_channel is \<open>constructor\<close> (a stone may carry any channel text), the lookup
  \<open>channelRules[channel]\<close> finds the inherited \<open>Object.prototype.constructor\<close>, the fallback
  rule is not used, and the level returned is \<open>undefined\<close>.
\<close>

theorem assess_constructor_channel_level_undefined:
  "level (assessRequiredLOD (empty_header\<lparr>glow_channel := Some (asc ''constructor'')\<rparr>)
            \<lparr>needsFullContext = False, quickAssessment = False\<rparr>) = Undefined"
  by (simp add: assessRequiredLOD_def Let_def level_adjust initial_assessment_def
      constructor_default empty_header_def)
    (simp add: asc_def)

text \<open>
  C5: the claim is that enabling needsFullContext never decreases the level. For the same
  header the level is \<open>NaN\<close> with needsFullContext enabled and \<open>undefined\<close> with it disabled,
  and \<open>NaN >= undefined\<close> is false.
\<close>

theorem assess_constructor_channel_not_monotone:
  "level (assessRequiredLOD (empty_header\<lparr>glow_channel := Some (asc ''constructor'')\<rparr>)
            \<lparr>needsFullContext = True, quickAssessment = False\<rparr>) = NaN
   \<and> \<not> js_ge
        (level (assessRequiredLOD (empty_header\<lparr>glow_channel := Some (asc ''constructor'')\<rparr>)
                  \<lparr>needsFullContext = True, quickAssessment = False\<rparr>))
        (level (assessRequiredLOD (empty_header\<lparr>glow_channel := Some (asc ''constructor'')\<rparr>)
                  \<lparr>needsFullContext = False, quickAssessment = False\<rparr>))"
  by (simp add: assessRequiredLOD_def Let_def level_adjust initial_assessment_def
      constructor_default empty_header_def)
    (simp add: asc_def)

section \<open>The hash, the fortune and the heuristic levels\<close>

lemma hex_digit_range: "0 \<le> d \<Longrightarrow> d < 16 \<Longrightarrow> 48 \<le> hex_digit d \<and> hex_digit d \<le> 102"
  by (auto simp add: hex_digit_def)

lemma to_hex_chars: "0 \<le> n \<Longrightarrow> x \<in> set (to_hex n) \<Longrightarrow> 48 \<le> x \<and> x \<le> 102"
proof (induction n rule: to_hex.induct)
  case (1 n)
  show ?case
  proof (cases "n < 16")
    case True
    with "1.prems" show ?thesis using hex_digit_range [of n] by (simp add: to_hex.simps [of n])
  next
    case False
    with "1.prems" have "x \<in> set (to_hex (n div 16)) \<or> x = hex_digit (n mod 16)"
      by (auto simp add: to_hex.simps [of n])
    then show ?thesis
    proof
      assume "x \<in> set (to_hex (n div 16))"
      with "1.IH" [OF False] "1.prems" show ?thesis by simp
    next
      assume "x = hex_digit (n mod 16)"
      then show ?thesis using hex_digit_range [of "n mod 16"] by simp
    qed
  qed
qed

lemma generateHash_chars: "x \<in> set (generateHash c) \<Longrightarrow> 48 \<le> x \<and> x \<le> 102"
proof -
  assume "x \<in> set (generateHash c)"
  then have "x \<in> set (padStart 8 48 (to_hex \<bar>foldl hash_step 0 c\<bar>))"
    unfolding generateHash_def by (rule in_set_takeD)
  then have "x = 48 \<or> x \<in> set (to_hex \<bar>foldl hash_step 0 c\<bar>)"
    by (auto simp add: padStart_def)
  then show ?thesis using to_hex_chars [of "\<bar>foldl hash_step 0 c\<bar>" x] by auto
qed

lemma single_line_generateHash: "single_line (generateHash c)"
  unfolding single_line_def using generateHash_chars [of 10 c] by auto

lemma single_line_calculateFortune:
  "single_line ch \<Longrightarrow> single_line (calculateFortune c ch)"
  by (simp add: single_line_def calculateFortune_def Let_def asc_def)

lemma trim_Nil: "trim [] = []"
  by (simp add: trim_def trimStart_def trimEnd_def)

lemma split_runs_Nil: "split_runs m d [] = [[]]"
  by (simp add: split_runs.simps)

lemma heuristic_lod0_empty: "heuristic_lod0 c = [] \<longleftrightarrow> c = []"
proof (cases "c = []")
  case True
  then show ?thesis
    by (simp add: heuristic_lod0_def split_runs_Nil trim_Nil Let_def)
next
  case False
  define sentences where "sentences = filter (\<lambda>x. trim x \<noteq> []) (split_runs 0 is_sentence_end c)"
  define l0 where "l0 = (case sentences of [] \<Rightarrow> take 100 c | x # _ \<Rightarrow> if x = [] then take 100 c else x)"
  have n0: "l0 \<noteq> []" using False by (simp add: l0_def split: list.splits)
  have "heuristic_lod0 c = take 150 (if length sentences > 1 \<and> length l0 < 50
                 then l0 @ asc ''. '' @ sentences ! 1 else l0)"
    unfolding heuristic_lod0_def Let_def sentences_def l0_def ..
  with n0 False show ?thesis by simp
qed

lemma heuristic_lod1_empty: "heuristic_lod1 c = [] \<longleftrightarrow> c = []"
proof (cases "c = []")
  case True
  then show ?thesis
    by (simp add: heuristic_lod1_def split_runs_Nil trim_Nil Let_def)
next
  case False
  define paragraphs where "paragraphs = filter (\<lambda>x. trim x \<noteq> []) (split_runs 1 (\<lambda>c. c = 10) c)"
  define l1 where "l1 = (case paragraphs of [] \<Rightarrow> take 500 c | x # _ \<Rightarrow> if x = [] then take 500 c else x)"
  have n1: "l1 \<noteq> []" using False by (simp add: l1_def split: list.splits)
  have "heuristic_lod1 c = take 500 (if length l1 < 100 \<and> length paragraphs > 1
                 then l1 @ [10, 10] @ paragraphs ! 1 else l1)"
    unfolding heuristic_lod1_def Let_def paragraphs_def l1_def ..
  with n1 False show ?thesis by simp
qed

lemma dec_digit: "n < 10 \<Longrightarrow> dec n = [48 + n]"
  by (simp add: dec.simps)

lemma upt_4: "[0..<4] = [0, 1, 2, 3]"
  by (simp add: upt_rec)

lemma lod_count_generated:
  "length (filter (\<lambda>v. v \<noteq> []) (map snd (generateLODs c))) = (if c = [] then 0 else 3)"
  by (simp add: generateLODs_def heuristic_lod0_empty heuristic_lod1_empty)

lemma lod_blocks_generated:
  "lod_blocks (generateLODs c) [0..<4] =
     (if c = [] then []
      else 10 # asc ''LOD-0: '' @ heuristic_lod0 c @ 10 # separator
         @ 10 # asc ''LOD-1: '' @ heuristic_lod1 c @ 10 # separator
         @ 10 # asc ''LOD-2: '' @ c @ 10 # separator)"
  by (simp add: upt_4 generateLODs_def heuristic_lod0_empty heuristic_lod1_empty dec_digit asc_def)

section \<open>The header loop on the lines of a header\<close>

text \<open>The value the header loop stores for a line \<open>key: v\<close>.\<close>

lemma header_line_border_hash:
  "header_line (trim (asc ''border_hash'' @ 58 # u)) h = h\<lparr>border_hash := Some (trim (trimEnd u))\<rparr>"
  using header_line_key [of "asc ''border_hash''" u h] by (simp add: asc_def is_space_def)

lemma header_line_glow_channel:
  "header_line (trim (asc ''glow_channel'' @ 58 # u)) h = h\<lparr>glow_channel := Some (trim (trimEnd u))\<rparr>"
  using header_line_key [of "asc ''glow_channel''" u h] by (simp add: asc_def is_space_def)

lemma header_line_stone_type:
  "header_line (trim (asc ''stone_type'' @ 58 # u)) h = h\<lparr>stone_type := Some (trim (trimEnd u))\<rparr>"
  using header_line_key [of "asc ''stone_type''" u h] by (simp add: asc_def is_space_def)

lemma header_line_created:
  "header_line (trim (asc ''created'' @ 58 # u)) h = h\<lparr>created := Some (trim (trimEnd u))\<rparr>"
  using header_line_key [of "asc ''created''" u h] by (simp add: asc_def is_space_def)

lemma header_line_source_agent:
  "header_line (trim (asc ''source_agent'' @ 58 # u)) h = h\<lparr>source_agent := Some (trim (trimEnd u))\<rparr>"
  using header_line_key [of "asc ''source_agent''" u h] by (simp add: asc_def is_space_def)

lemma header_line_lod_count:
  "header_line (trim (asc ''lod_count'' @ 58 # u)) h
     = h\<lparr>lod_count := (case parseInt10 (trim (trimEnd u)) of None \<Rightarrow> 0 | Some n \<Rightarrow> n)\<rparr>"
  using header_line_key [of "asc ''lod_count''" u h] by (simp add: asc_def is_space_def)

lemma header_line_fortune:
  "header_line (trim (asc ''fortune'' @ 58 # u)) h = h\<lparr>fortune := Some (trim (trimEnd u))\<rparr>"
  using header_line_key [of "asc ''fortune''" u h] by (simp add: asc_def is_space_def)

lemma key_line_not_separator:
  "k \<noteq> [] \<Longrightarrow> \<not> is_space (hd k) \<Longrightarrow> trim (k @ 58 # u) \<noteq> separator"
proof -
  assume k: "k \<noteq> []" "\<not> is_space (hd k)"
  then have "trim (k @ 58 # u) = k @ 58 # trimEnd u" by (rule trim_key_line)
  moreover from k have "k @ 58 # trimEnd u \<noteq> separator"
    by (cases k) (simp_all add: separator_def)
  ultimately show ?thesis by simp
qed

lemma header_line_open_marker: "header_line (trim open_marker) h = h"
proof -
  have "trim open_marker = open_marker"
    by (rule trim_id) (simp_all add: open_marker_val is_space_def)
  then show ?thesis
    by (simp add: header_line_def indexOf_def open_marker_val)
qed

lemma trim_open_marker_not_separator: "trim open_marker \<noteq> separator"
proof -
  have "trim open_marker = open_marker"
    by (rule trim_id) (simp_all add: open_marker_val is_space_def)
  then show ?thesis by (simp add: open_marker_val separator_def)
qed

lemma trim_separator: "trim separator = separator"
  by (rule trim_id) (simp_all add: separator_def is_space_def)

lemma scan_header_built:
  "scan_header
     (open_marker
      # (asc ''border_hash'' @ 58 # a)
      # (asc ''glow_channel'' @ 58 # b)
      # (asc ''stone_type'' @ 58 # c)
      # (asc ''created'' @ 58 # d)
      # (asc ''source_agent'' @ 58 # e)
      # (asc ''lod_count'' @ 58 # f)
      # (asc ''fortune'' @ 58 # g)
      # separator # rest) 0 h
   = (h\<lparr>border_hash := Some (trim (trimEnd a)),
        glow_channel := Some (trim (trimEnd b)),
        stone_type := Some (trim (trimEnd c)),
        created := Some (trim (trimEnd d)),
        source_agent := Some (trim (trimEnd e)),
        lod_count := (case parseInt10 (trim (trimEnd f)) of None \<Rightarrow> 0 | Some n \<Rightarrow> n),
        fortune := Some (trim (trimEnd g))\<rparr>, 8)"
proof -
  have ns: "trim (asc ''border_hash'' @ 58 # a) \<noteq> separator"
    "trim (asc ''glow_channel'' @ 58 # b) \<noteq> separator"
    "trim (asc ''stone_type'' @ 58 # c) \<noteq> separator"
    "trim (asc ''created'' @ 58 # d) \<noteq> separator"
    "trim (asc ''source_agent'' @ 58 # e) \<noteq> separator"
    "trim (asc ''lod_count'' @ 58 # f) \<noteq> separator"
    "trim (asc ''fortune'' @ 58 # g) \<noteq> separator"
    by (rule key_line_not_separator; simp add: asc_def is_space_def)+
  show ?thesis
    by (simp only: scan_header.simps Let_def ns trim_open_marker_not_separator if_False
        header_line_open_marker header_line_border_hash header_line_glow_channel
        header_line_stone_type header_line_created header_line_source_agent
        header_line_lod_count header_line_fortune trim_separator if_True)
      (simp add: eval_nat_numeral)
qed

section \<open>The header of a stone built from plain metadata\<close>

lemma lod_blocks_starts: "\<exists>r. lod_blocks l lvs @ 10 # t = 10 # r"
  by (induction lvs) (auto split: option.splits)

lemma single_line_keys:
  "single_line (asc ''border_hash'' @ 58 # 32 # v) = single_line v"
  "single_line (asc ''glow_channel'' @ 58 # 32 # v) = single_line v"
  "single_line (asc ''stone_type'' @ 58 # 32 # v) = single_line v"
  "single_line (asc ''created'' @ 58 # 32 # v) = single_line v"
  "single_line (asc ''source_agent'' @ 58 # 32 # v) = single_line v"
  "single_line (asc ''lod_count'' @ 58 # 32 # v) = single_line v"
  "single_line (asc ''fortune'' @ 58 # 32 # v) = single_line v"
  by (simp_all add: single_line_def asc_def)

lemma single_line_dec: "single_line (dec n)"
proof (induction n rule: dec.induct)
  case (1 n)
  then show ?case
    by (cases "n < 10") (simp_all add: single_line_def dec.simps [of n])
qed

text \<open>
  The lines of a stone built from plain metadata: the open marker, the seven header lines in
  their fixed order, the separator, and then the lines of the blocks.
\<close>

lemma lines_buildStone:
  assumes "plain_metadata ts opts"
  shows "\<exists>rest. split_char 10 (buildStone ts opts) =
     open_marker
     # (asc ''border_hash'' @ 58 # 32 # generateHash (content opts))
     # (asc ''glow_channel'' @ 58 # 32 # glow_channel_of opts)
     # (asc ''stone_type'' @ 58 # 32 # stone_type_of opts)
     # (asc ''created'' @ 58 # 32 # ts)
     # (asc ''source_agent'' @ 58 # 32 # source_agent_of opts)
     # (asc ''lod_count'' @ 58 # 32 # dec (length (filter (\<lambda>v. v \<noteq> [])
           (map snd (case lods opts of None \<Rightarrow> generateLODs (content opts) | Some l \<Rightarrow> l)))))
     # (asc ''fortune'' @ 58 # 32 # calculateFortune (content opts) (glow_channel_of opts))
     # separator # rest"
proof -
  define L1 where "L1 = asc ''border_hash'' @ 58 # 32 # generateHash (content opts)"
  define L2 where "L2 = asc ''glow_channel'' @ 58 # 32 # glow_channel_of opts"
  define L3 where "L3 = asc ''stone_type'' @ 58 # 32 # stone_type_of opts"
  define L4 where "L4 = asc ''created'' @ 58 # 32 # ts"
  define L5 where "L5 = asc ''source_agent'' @ 58 # 32 # source_agent_of opts"
  define L6 where "L6 = asc ''lod_count'' @ 58 # 32 # dec (length (filter (\<lambda>v. v \<noteq> [])
           (map snd (case lods opts of None \<Rightarrow> generateLODs (content opts) | Some l \<Rightarrow> l))))"
  define L7 where "L7 = asc ''fortune'' @ 58 # 32 # calculateFortune (content opts) (glow_channel_of opts)"
  define B where "B = lod_blocks (case lods opts of None \<Rightarrow> generateLODs (content opts) | Some l \<Rightarrow> l) [0..<4]"
  have shape: "buildStone ts opts =
      open_marker @ 10 # L1 @ 10 # L2 @ 10 # L3 @ 10 # L4 @ 10 # L5 @ 10 # L6 @ 10 # L7
        @ 10 # separator @ B @ 10 # close_marker"
    by (simp add: buildStone_def Let_def L1_def L2_def L3_def L4_def L5_def L6_def L7_def B_def
        asc_def)
  obtain r where r: "B @ 10 # close_marker = 10 # r"
    unfolding B_def using lod_blocks_starts by blast
  have s: "10 \<notin> set open_marker" "10 \<notin> set L1" "10 \<notin> set L2" "10 \<notin> set L3" "10 \<notin> set L4"
    "10 \<notin> set L5" "10 \<notin> set L6" "10 \<notin> set L7" "10 \<notin> set separator"
    using assms single_line_generateHash [of "content opts"]
      single_line_dec [of "length (filter (\<lambda>v. v \<noteq> [])
           (map snd (case lods opts of None \<Rightarrow> generateLODs (content opts) | Some l \<Rightarrow> l)))"]
      single_line_calculateFortune [of "glow_channel_of opts" "content opts"]
    by (simp_all add: L1_def L2_def L3_def L4_def L5_def L6_def L7_def plain_metadata_def
        single_line_def asc_def open_marker_val separator_def)
  have "split_char 10 (buildStone ts opts) =
      open_marker # L1 # L2 # L3 # L4 # L5 # L6 # L7 # separator # split_char 10 r"
    unfolding shape by (simp add: split_char_line s r)
  then show ?thesis
    unfolding L1_def L2_def L3_def L4_def L5_def L6_def L7_def by blast
qed

lemma parse_header_text_built:
  assumes "plain_metadata ts opts"
  shows "\<exists>raw. parse_header_text (buildStone ts opts) =
     \<lparr>border_hash = Some (trim (trimEnd (32 # generateHash (content opts)))),
      glow_channel = Some (trim (trimEnd (32 # glow_channel_of opts))),
      stone_type = Some (trim (trimEnd (32 # stone_type_of opts))),
      created = Some (trim (trimEnd (32 # ts))),
      source_agent = Some (trim (trimEnd (32 # source_agent_of opts))),
      lod_count = (case parseInt10 (trim (trimEnd (32 # dec (length (filter (\<lambda>v. v \<noteq> [])
           (map snd (case lods opts of None \<Rightarrow> generateLODs (content opts) | Some l \<Rightarrow> l)))))))
         of None \<Rightarrow> 0 | Some n \<Rightarrow> n),
      fortune = Some (trim (trimEnd (32 # calculateFortune (content opts) (glow_channel_of opts)))),
      raw_header = raw\<rparr>"
proof -
  obtain rest where lines: "split_char 10 (buildStone ts opts) =
     open_marker
     # (asc ''border_hash'' @ 58 # 32 # generateHash (content opts))
     # (asc ''glow_channel'' @ 58 # 32 # glow_channel_of opts)
     # (asc ''stone_type'' @ 58 # 32 # stone_type_of opts)
     # (asc ''created'' @ 58 # 32 # ts)
     # (asc ''source_agent'' @ 58 # 32 # source_agent_of opts)
     # (asc ''lod_count'' @ 58 # 32 # dec (length (filter (\<lambda>v. v \<noteq> [])
           (map snd (case lods opts of None \<Rightarrow> generateLODs (content opts) | Some l \<Rightarrow> l)))))
     # (asc ''fortune'' @ 58 # 32 # calculateFortune (content opts) (glow_channel_of opts))
     # separator # rest"
    using lines_buildStone [OF assms] by blast
  have front: "take 15 (split_char 10 (buildStone ts opts)) =
     open_marker
     # (asc ''border_hash'' @ 58 # 32 # generateHash (content opts))
     # (asc ''glow_channel'' @ 58 # 32 # glow_channel_of opts)
     # (asc ''stone_type'' @ 58 # 32 # stone_type_of opts)
     # (asc ''created'' @ 58 # 32 # ts)
     # (asc ''source_agent'' @ 58 # 32 # source_agent_of opts)
     # (asc ''lod_count'' @ 58 # 32 # dec (length (filter (\<lambda>v. v \<noteq> [])
           (map snd (case lods opts of None \<Rightarrow> generateLODs (content opts) | Some l \<Rightarrow> l)))))
     # (asc ''fortune'' @ 58 # 32 # calculateFortune (content opts) (glow_channel_of opts))
     # separator # take 6 rest"
    unfolding lines by simp
  show ?thesis
    unfolding parse_header_text_def Let_def front scan_header_built
    by (simp add: empty_header_def)
qed

lemma parseHeader_new_parser:
  "isQAStone (JStr s) \<Longrightarrow> fst (parseHeader new_parser (JStr s)) = Inr (parse_header_text s)"
  by (simp add: new_parser_def Let_def)

section \<open>A stone built from metadata with line feeds\<close>

lemmas eval_text =
  asc_def is_space_def trim_def trimStart_def trimEnd_def separator_def open_marker_val
  close_marker_val startsWith_def

lemmas eval_rec = split_runs.simps dec.simps

lemma hash_x: "generateHash (asc ''x'') = asc ''00000078''"
  by code_simp

lemma fortune_x: "calculateFortune (asc ''x'') (asc ''context'') = asc ''context:general:simple''"
  by (simp add: calculateFortune_def toLowerCase_def lower_unit_def test_words_def word_boundary_def
     is_word_char_def word_count_def Let_def upt_rec eval_text eval_rec)

lemma lods_x: "generateLODs (asc ''x'') = [(0, asc ''x''), (1, asc ''x''), (2, asc ''x''), (3, [])]"
  by (simp add: generateLODs_def heuristic_lod0_def heuristic_lod1_def is_sentence_end_def Let_def eval_text eval_rec)

lemma injected_stone:
  "buildStone example_timestamp injected_options =
     open_marker @ [10] @ asc ''border_hash: 00000078''
     @ [10] @ asc ''glow_channel: context''
     @ [10] @ asc ''stone_type: clipboard''
     @ [10] @ asc ''created: 2026-01-01T00:00:00.000Z''
     @ [10] @ asc ''source_agent: u''
     @ [10] @ asc ''lod_count: 9''
     @ [10] @ asc ''fortune: a:b:complex''
     @ [10] @ separator
     @ [10] @ asc ''lod_count: 3''
     @ [10] @ asc ''fortune: context:general:simple''
     @ [10] @ separator
     @ [10] @ asc ''LOD-0: x'' @ [10] @ separator
     @ [10] @ asc ''LOD-1: x'' @ [10] @ separator
     @ [10] @ asc ''LOD-2: x'' @ [10] @ separator
     @ [10] @ close_marker"
  by (simp add: buildStone_def injected_options_def injected_agent_def example_timestamp_def
      glow_channel_of_def stone_type_of_def source_agent_of_def hash_x fortune_x lods_x Let_def upt_rec)
    (simp add: eval_text eval_rec)


lemma injected_lines:
  "take 15 (split_char 10 (buildStone example_timestamp injected_options)) =
     [open_marker, asc ''border_hash: 00000078'', asc ''glow_channel: context'',
      asc ''stone_type: clipboard'', asc ''created: 2026-01-01T00:00:00.000Z'',
      asc ''source_agent: u'', asc ''lod_count: 9'', asc ''fortune: a:b:complex'', separator,
      asc ''lod_count: 3'', asc ''fortune: context:general:simple'', separator,
      asc ''LOD-0: x'', separator, asc ''LOD-1: x'']"
  by (simp add: injected_stone) (simp add: eval_text)

lemma injected_scan:
  "scan_header (take 15 (split_char 10 (buildStone example_timestamp injected_options))) 0 empty_header
     = (\<lparr>border_hash = Some (asc ''00000078''), glow_channel = Some (asc ''context''),
         stone_type = Some (asc ''clipboard''), created = Some (asc ''2026-01-01T00:00:00.000Z''),
         source_agent = Some (asc ''u''), lod_count = 9, fortune = Some (asc ''a:b:complex''),
         raw_header = []\<rparr>, 8)"
  unfolding injected_lines
  by (simp add: header_line_def indexOf_def parseInt10_def is_digit_def digits_value_def
      empty_header_def Let_def eval_text)

lemma injected_header:
  "fst (parseHeader new_parser (JStr (buildStone example_timestamp injected_options)))
     = Inr (parse_header_text (buildStone example_timestamp injected_options))
   \<and> lod_count (parse_header_text (buildStone example_timestamp injected_options)) = 9
   \<and> fortune (parse_header_text (buildStone example_timestamp injected_options))
       = Some (asc ''a:b:complex'')"
proof -
  have "fst (parseHeader new_parser (JStr (buildStone example_timestamp injected_options)))
     = Inr (parse_header_text (buildStone example_timestamp injected_options))"
    by (rule parseHeader_new_parser) (rule isQAStone_buildStone)
  moreover have "lod_count (parse_header_text (buildStone example_timestamp injected_options)) = 9"
    by (simp add: parse_header_text_def injected_scan Let_def)
  moreover have "fortune (parse_header_text (buildStone example_timestamp injected_options))
       = Some (asc ''a:b:complex'')"
    by (simp add: parse_header_text_def injected_scan Let_def)
  ultimately show ?thesis by blast
qed

theorem injected_metadata_spawns_helper:
  "lods injected_options = None
   \<and> \<not> isl (fst (parseHeader new_parser (JStr (buildStone example_timestamp injected_options))))
   \<and> spawnHelper (assessRequiredLOD
        (projr (fst (parseHeader new_parser (JStr (buildStone example_timestamp injected_options)))))
        no_context)"
proof -
  have "split_char 58 (asc ''a:b:complex'') = [asc ''a'', asc ''b'', asc ''complex'']"
    by (simp add: asc_def)
  then have "complexity (parseFortune (Some (asc ''a:b:complex''))) = Some (asc ''complex'')"
    by (simp add: part_or_null_def Let_def) (simp add: asc_def)
  then show ?thesis
    using injected_header
    by (simp add: injected_options_def assessRequiredLOD_def Let_def spawnHelper_adjust no_context_def)
qed

section \<open>The helper flag on stones with heuristic levels\<close>

lemma plain_example: "single_line ts \<Longrightarrow> plain_metadata ts example_options"
  by (simp add: plain_metadata_def example_options_def glow_channel_of_def stone_type_of_def
      source_agent_of_def single_line_def asc_def)

lemma single_line_example_timestamp: "single_line example_timestamp"
  by (simp add: single_line_def example_timestamp_def asc_def)

lemma spawnHelper_assess:
  "spawnHelper (assessRequiredLOD hdr ctx) =
     (complexity (parseFortune (fortune hdr)) = Some (asc ''complex'') \<and> lod_count hdr \<ge> 4)"
  by (simp add: assessRequiredLOD_def Let_def spawnHelper_adjust initial_assessment_def)

lemma parsed_lod_count:
  "n = 0 \<or> n = 3 \<Longrightarrow>
   (case parseInt10 (trim (trimEnd (32 # dec n))) of None \<Rightarrow> 0 | Some k \<Rightarrow> k) = int n"
proof -
  have "(case parseInt10 (trim (trimEnd (32 # dec 0))) of None \<Rightarrow> 0 | Some k \<Rightarrow> k) = 0"
    by (simp add: dec_digit parseInt10_def is_digit_def digits_value_def Let_def eval_text)
  moreover
  have "(case parseInt10 (trim (trimEnd (32 # dec 3))) of None \<Rightarrow> 0 | Some k \<Rightarrow> k) = 3"
    by (simp add: dec_digit parseInt10_def is_digit_def digits_value_def Let_def eval_text)
  moreover assume "n = 0 \<or> n = 3"
  ultimately show ?thesis by auto
qed

text \<open>
  C10, as amended: when no lods map is supplied, the generated LOD-3 is the empty string.
  When moreover the channel, the stone type, the source agent and the timestamp contain no
  line feed, the header that a new parser reads from the stone has lod_count 3 for non-empty
  content and 0 for empty content, and assessRequiredLOD on it never sets spawnHelper.
\<close>

theorem heuristic_stone_never_spawns_helper:
  assumes "lods opts = None" and "plain_metadata ts opts"
  shows "map_of (generateLODs (content opts)) 3 = Some []
     \<and> \<not> isl (fst (parseHeader new_parser (JStr (buildStone ts opts))))
     \<and> lod_count (projr (fst (parseHeader new_parser (JStr (buildStone ts opts)))))
         = (if content opts = [] then 0 else 3)
     \<and> \<not> spawnHelper (assessRequiredLOD
            (projr (fst (parseHeader new_parser (JStr (buildStone ts opts))))) ctx)"
proof -
  let ?h = "parse_header_text (buildStone ts opts)"
  have parsed: "fst (parseHeader new_parser (JStr (buildStone ts opts))) = Inr ?h"
    by (rule parseHeader_new_parser) (rule isQAStone_buildStone)
  have count: "length (filter (\<lambda>v. v \<noteq> [])
      (map snd (case lods opts of None \<Rightarrow> generateLODs (content opts) | Some l \<Rightarrow> l)))
      = (if content opts = [] then 0 else 3)"
    using assms(1) by (simp only: option.case lod_count_generated)
  obtain raw where "?h = \<lparr>border_hash = Some (trim (trimEnd (32 # generateHash (content opts)))),
      glow_channel = Some (trim (trimEnd (32 # glow_channel_of opts))),
      stone_type = Some (trim (trimEnd (32 # stone_type_of opts))),
      created = Some (trim (trimEnd (32 # ts))),
      source_agent = Some (trim (trimEnd (32 # source_agent_of opts))),
      lod_count = (case parseInt10 (trim (trimEnd (32 # dec (length (filter (\<lambda>v. v \<noteq> [])
           (map snd (case lods opts of None \<Rightarrow> generateLODs (content opts) | Some l \<Rightarrow> l)))))))
         of None \<Rightarrow> 0 | Some n \<Rightarrow> n),
      fortune = Some (trim (trimEnd (32 # calculateFortune (content opts) (glow_channel_of opts)))),
      raw_header = raw\<rparr>"
    using parse_header_text_built [OF assms(2)] by blast
  then have "lod_count ?h = (case parseInt10 (trim (trimEnd (32 # dec (length (filter (\<lambda>v. v \<noteq> [])
           (map snd (case lods opts of None \<Rightarrow> generateLODs (content opts) | Some l \<Rightarrow> l)))))))
         of None \<Rightarrow> 0 | Some n \<Rightarrow> n)"
    by simp
  also have "\<dots> = int (if content opts = [] then 0 else 3)"
    unfolding count by (rule parsed_lod_count) simp
  finally have lc: "lod_count ?h = (if content opts = [] then 0 else 3)"
    by simp
  have l3: "map_of (generateLODs (content opts)) 3 = Some []"
    by (simp add: generateLODs_def)
  from lc have "\<not> spawnHelper (assessRequiredLOD ?h ctx)"
    by (simp add: spawnHelper_assess)
  with parsed lc l3 show ?thesis by simp
qed

theorem heuristic_stone_never_spawns_helper_witness:
  "lods example_options = None \<and> plain_metadata example_timestamp example_options
   \<and> map_of (generateLODs (content example_options)) 3 = Some []
   \<and> lod_count (projr (fst (parseHeader new_parser
         (JStr (buildStone example_timestamp example_options))))) = 3
   \<and> \<not> spawnHelper (assessRequiredLOD
         (projr (fst (parseHeader new_parser
            (JStr (buildStone example_timestamp example_options))))) no_context)"
proof -
  have a: "lods example_options = None"
    by (simp add: example_options_def)
  have b: "plain_metadata example_timestamp example_options"
    by (rule plain_example) (rule single_line_example_timestamp)
  have c: "content example_options \<noteq> []"
    by (simp add: example_options_def example_content_def asc_def)
  show ?thesis
    using heuristic_stone_never_spawns_helper [OF a b, of no_context] a b c by simp
qed

section \<open>The scenario of the specification\<close>

lemma example_content_val:
  "example_content = [67, 114, 101, 97, 116, 101, 32, 71, 105, 116, 72, 117, 98, 32, 114, 101,
     112, 111, 32, 102, 111, 114, 32, 122, 116, 103, 105, 45, 117, 105, 44, 32, 115, 104, 97,
     114, 101, 100, 32, 85, 73, 32, 108, 105, 98, 114, 97, 114, 121, 46]"
  by (simp add: example_content_def asc_def)

lemma example_hash: "generateHash example_content = asc ''7bf75e6f''"
  by code_simp

lemma example_word_count: "word_count example_content = 8"
  by (simp add: word_count_def example_content_val is_space_def eval_rec)

lemma example_lower:
  "toLowerCase example_content = asc ''create github repo for ztgi-ui, shared ui library.''"
  by (simp add: toLowerCase_def lower_unit_def example_content_val asc_def)

lemma example_has_github:
  "test_words [asc ''git'', asc ''repo'', asc ''github'', asc ''commit'']
     (asc ''create github repo for ztgi-ui, shared ui library.'')"
  by (simp add: test_words_def word_boundary_def is_word_char_def asc_def upt_rec)

lemma example_fortune:
  "calculateFortune example_content (asc ''task'') = asc ''task:repo:simple''"
  by (simp add: calculateFortune_def Let_def example_lower example_has_github example_word_count)
    (simp add: asc_def)


lemma trim_after_space:
  "v \<noteq> [] \<Longrightarrow> \<not> is_space (hd v) \<Longrightarrow> \<not> is_space (last v) \<Longrightarrow> trim (trimEnd (32 # v)) = v"
proof -
  assume v: "v \<noteq> []" "\<not> is_space (hd v)" "\<not> is_space (last v)"
  then obtain a w where w: "v = w @ [a]"
    by (cases v rule: rev_cases) auto
  with v have "\<not> is_space a" by simp
  then have "trimEnd (32 # v) = 32 # v"
    using trimEnd_append_nonspace [of a "32 # w" "[]"] by (simp add: w trimEnd_def)
  moreover have "trim (32 # v) = trim v"
    by (simp add: trim_def trimStart_def is_space_def)
  ultimately show ?thesis using v by (simp add: trim_id)
qed

text \<open>
  C7: the stone built from the content "Create GitHub repo for ztgi-ui, shared UI library."
  with glow_channel "task" (and a timestamp on one line, as toISOString prints it) is read
  back by a new parser into a header whose border_hash is \<open>7bf75e6f\<close>, eight lowercase
  hexadecimal digits; its fortune parses into channel "task", category "repo" and complexity
  "simple"; and assessRequiredLOD on it with an empty task context returns level 0.
\<close>

theorem example_stone_scenario:
  assumes "single_line ts"
  shows "\<not> isl (fst (parseHeader new_parser (JStr (buildStone ts example_options))))
     \<and> border_hash (projr (fst (parseHeader new_parser (JStr (buildStone ts example_options)))))
         = Some (asc ''7bf75e6f'')
     \<and> length (asc ''7bf75e6f'') = 8 \<and> list_all is_lower_hex (asc ''7bf75e6f'')
     \<and> parseFortune (fortune (projr (fst (parseHeader new_parser
           (JStr (buildStone ts example_options))))))
         = \<lparr>channel = Some (asc ''task''), category = Some (asc ''repo''),
            complexity = Some (asc ''simple'')\<rparr>
     \<and> level (assessRequiredLOD (projr (fst (parseHeader new_parser
           (JStr (buildStone ts example_options))))) no_context) = Num 0"
proof -
  let ?h = "parse_header_text (buildStone ts example_options)"
  have parsed: "fst (parseHeader new_parser (JStr (buildStone ts example_options))) = Inr ?h"
    by (rule parseHeader_new_parser) (rule isQAStone_buildStone)
  have opts: "content example_options = example_content"
    "glow_channel_of example_options = asc ''task''"
    "stone_type_of example_options = asc ''clipboard''"
    by (simp_all add: example_options_def glow_channel_of_def stone_type_of_def)
  obtain raw cr sa lc where h: "?h = \<lparr>border_hash = Some (trim (trimEnd (32 # asc ''7bf75e6f''))),
      glow_channel = Some (trim (trimEnd (32 # asc ''task''))),
      stone_type = Some (trim (trimEnd (32 # asc ''clipboard''))),
      created = cr, source_agent = sa, lod_count = lc,
      fortune = Some (trim (trimEnd (32 # asc ''task:repo:simple''))),
      raw_header = raw\<rparr>"
    using parse_header_text_built [OF plain_example [OF assms]]
    unfolding opts example_hash example_fortune by blast
  have t: "trim (trimEnd (32 # asc ''7bf75e6f'')) = asc ''7bf75e6f''"
    "trim (trimEnd (32 # asc ''task'')) = asc ''task''"
    "trim (trimEnd (32 # asc ''clipboard'')) = asc ''clipboard''"
    "trim (trimEnd (32 # asc ''task:repo:simple'')) = asc ''task:repo:simple''"
    by (rule trim_after_space; simp add: asc_def is_space_def)+
  have bh: "border_hash ?h = Some (asc ''7bf75e6f'')"
    by (simp add: h t)
  have "split_char 58 (asc ''task:repo:simple'') = [asc ''task'', asc ''repo'', asc ''simple'']"
    by (simp add: asc_def)
  then have ft: "parseFortune (fortune ?h)
      = \<lparr>channel = Some (asc ''task''), category = Some (asc ''repo''),
         complexity = Some (asc ''simple'')\<rparr>"
    by (simp add: h t part_or_null_def Let_def) (simp add: asc_def)
  have rl: "defaultLod (lookup_rules (asc ''task'')) = Num 0"
    by (simp add: lookup_rules_def channelRules_def)
  have "glow_channel ?h = Some (asc ''task'')" "stone_type ?h = Some (asc ''clipboard'')"
    by (simp_all add: h t)
  then have lv: "level (assessRequiredLOD ?h no_context) = Num 0"
    by (simp add: assessRequiredLOD_def Let_def level_adjust ft initial_assessment_def rl
        no_context_def)
      (simp add: asc_def)
  have hex: "length (asc ''7bf75e6f'') = 8 \<and> list_all is_lower_hex (asc ''7bf75e6f'')"
    by (simp add: asc_def is_lower_hex_def)
  from parsed bh ft lv hex show ?thesis by simp
qed

theorem example_stone_scenario_witness:
  "single_line example_timestamp
   \<and> border_hash (projr (fst (parseHeader new_parser
         (JStr (buildStone example_timestamp example_options))))) = Some (asc ''7bf75e6f'')
   \<and> complexity (parseFortune (fortune (projr (fst (parseHeader new_parser
           (JStr (buildStone example_timestamp example_options))))))) = Some (asc ''simple'')
   \<and> level (assessRequiredLOD (projr (fst (parseHeader new_parser
           (JStr (buildStone example_timestamp example_options))))) no_context) = Num 0"
  using example_stone_scenario [OF single_line_example_timestamp] single_line_example_timestamp
  by simp

section \<open>The extraction cache\<close>

text \<open>extractLOD on a stone: the cached text if there is one, else the extracted text, stored.\<close>

lemma extractLOD_stone:
  "isQAStone (JStr s) \<Longrightarrow>
   extractLOD p (JStr s) lv =
     (case lodCache p (lod_cache_key s lv) of
        Some r \<Rightarrow> (JStr r, p)
      | None \<Rightarrow> (JStr (lod_text s lv),
                 p\<lparr>lodCache := (lodCache p)(lod_cache_key s lv \<mapsto> lod_text s lv)\<rparr>))"
  by (auto simp add: Let_def split: option.splits if_splits)

lemma extractLOD_not_stone: "\<not> isQAStone c \<Longrightarrow> extractLOD p c lv = (c, p)"
  by (cases c) simp_all

text \<open>Two calls in a row with the same arguments return the same value.\<close>

lemma extractLOD_repeatable:
  "fst (extractLOD (snd (extractLOD p c lv)) c lv) = fst (extractLOD p c lv)"
proof (cases "isQAStone c")
  case False
  then show ?thesis by (simp add: extractLOD_not_stone)
next
  case True
  then obtain s where "c = JStr s" by (cases c) simp_all
  with True show ?thesis
    by (simp only: extractLOD_stone) (simp split: option.splits)
qed

text \<open>After clearCache the value is the extracted text.\<close>

lemma extractLOD_fresh:
  "isQAStone (JStr s) \<Longrightarrow> fst (extractLOD (clearCache p) (JStr s) lv) = JStr (lod_text s lv)"
  by (simp only: extractLOD_stone) (simp add: clearCache_def)

lemma hash_Aa: "generateHash (asc ''Aa'') = asc ''00000840''"
  by code_simp

lemma hash_BB: "generateHash (asc ''BB'') = asc ''00000840''"
  by code_simp

lemma fortune_Aa: "calculateFortune (asc ''Aa'') (asc ''context'') = asc ''context:general:simple''"
  by (simp add: calculateFortune_def toLowerCase_def lower_unit_def test_words_def word_boundary_def
     is_word_char_def word_count_def Let_def upt_rec eval_text eval_rec)

lemma fortune_BB: "calculateFortune (asc ''BB'') (asc ''context'') = asc ''context:general:simple''"
  by (simp add: calculateFortune_def toLowerCase_def lower_unit_def test_words_def word_boundary_def
     is_word_char_def word_count_def Let_def upt_rec eval_text eval_rec)

lemma lods_Aa: "generateLODs (asc ''Aa'') = [(0, asc ''Aa''), (1, asc ''Aa''), (2, asc ''Aa''), (3, [])]"
  by (simp add: generateLODs_def heuristic_lod0_def heuristic_lod1_def is_sentence_end_def Let_def
      eval_text eval_rec)

lemma lods_BB: "generateLODs (asc ''BB'') = [(0, asc ''BB''), (1, asc ''BB''), (2, asc ''BB''), (3, [])]"
  by (simp add: generateLODs_def heuristic_lod0_def heuristic_lod1_def is_sentence_end_def Let_def
      eval_text eval_rec)

lemma stone_Aa_val:
  "stone_Aa =
     open_marker @ [10] @ asc ''border_hash: 00000840''
     @ [10] @ asc ''glow_channel: context''
     @ [10] @ asc ''stone_type: clipboard''
     @ [10] @ asc ''created: 2026-01-01T00:00:00.000Z''
     @ [10] @ asc ''source_agent: user''
     @ [10] @ asc ''lod_count: 3''
     @ [10] @ asc ''fortune: context:general:simple''
     @ [10] @ separator
     @ [10] @ asc ''LOD-0: Aa'' @ [10] @ separator
     @ [10] @ asc ''LOD-1: Aa'' @ [10] @ separator
     @ [10] @ asc ''LOD-2: Aa'' @ [10] @ separator
     @ [10] @ close_marker"
  by (simp add: stone_Aa_def buildStone_def example_timestamp_def
      glow_channel_of_def stone_type_of_def source_agent_of_def hash_Aa fortune_Aa lods_Aa Let_def upt_rec)
    (simp add: eval_text eval_rec)

lemma stone_BB_val:
  "stone_BB =
     open_marker @ [10] @ asc ''border_hash: 00000840''
     @ [10] @ asc ''glow_channel: context''
     @ [10] @ asc ''stone_type: clipboard''
     @ [10] @ asc ''created: 2026-01-01T00:00:00.000Z''
     @ [10] @ asc ''source_agent: user''
     @ [10] @ asc ''lod_count: 3''
     @ [10] @ asc ''fortune: context:general:simple''
     @ [10] @ separator
     @ [10] @ asc ''LOD-0: BB'' @ [10] @ separator
     @ [10] @ asc ''LOD-1: BB'' @ [10] @ separator
     @ [10] @ asc ''LOD-2: BB'' @ [10] @ separator
     @ [10] @ close_marker"
  by (simp add: stone_BB_def buildStone_def example_timestamp_def
      glow_channel_of_def stone_type_of_def source_agent_of_def hash_BB fortune_BB lods_BB Let_def upt_rec)
    (simp add: eval_text eval_rec)

lemma same_key: "lod_cache_key stone_Aa 2 = lod_cache_key stone_BB 2"
  by (simp add: lod_cache_key_def stone_Aa_val stone_BB_val) (simp add: eval_text)

lemma lod_text_Aa: "lod_text stone_Aa 2 = asc ''Aa''"
  by (simp add: lod_text_def lod_marker_def stone_Aa_val) (simp add: eval_text eval_rec)

lemma lod_text_BB: "lod_text stone_BB 2 = asc ''BB''"
  by (simp add: lod_text_def lod_marker_def stone_BB_val) (simp add: eval_text eval_rec)

lemma stones_isQAStone: "isQAStone (JStr stone_Aa)" "isQAStone (JStr stone_BB)"
  by (simp_all only: stone_Aa_def stone_BB_def isQAStone_buildStone)

text \<open>
  C2: the claim is that extractLOD returns what a fresh computation after clearCache returns.
  The stones built from the contents "Aa" and "BB" have the same border_hash \<open>00000840\<close>
  and so the same first 50 code units. On a new parser that has extracted level 2 of the
  first stone, extractLOD on the second stone at level 2 returns "Aa", the text of the first
  stone, on this call and on every repetition; after clearCache it returns "BB".
\<close>

theorem extractLOD_returns_other_stone:
  "fst (extractLOD new_parser (JStr stone_Aa) 2) = JStr (asc ''Aa'')
   \<and> fst (extractLOD (snd (extractLOD new_parser (JStr stone_Aa) 2)) (JStr stone_BB) 2)
       = JStr (asc ''Aa'')
   \<and> fst (extractLOD (clearCache (snd (extractLOD new_parser (JStr stone_Aa) 2)))
            (JStr stone_BB) 2) = JStr (asc ''BB'')"
proof -
  have first: "extractLOD new_parser (JStr stone_Aa) 2
      = (JStr (asc ''Aa''),
         new_parser\<lparr>lodCache := (lodCache new_parser)(lod_cache_key stone_Aa 2 \<mapsto> asc ''Aa'')\<rparr>)"
    by (simp only: extractLOD_stone [OF stones_isQAStone(1)]) (simp add: new_parser_def lod_text_Aa)
  have second: "fst (extractLOD (snd (extractLOD new_parser (JStr stone_Aa) 2)) (JStr stone_BB) 2)
       = JStr (asc ''Aa'')"
    unfolding first by (simp only: extractLOD_stone [OF stones_isQAStone(2)]) (simp add: same_key)
  have third: "fst (extractLOD (clearCache (snd (extractLOD new_parser (JStr stone_Aa) 2)))
            (JStr stone_BB) 2) = JStr (asc ''BB'')"
    by (simp only: extractLOD_fresh [OF stones_isQAStone(2)] lod_text_BB)
  from first second third show ?thesis by simp
qed

section \<open>What extractLODsUpTo returns on a stone\<close>

lemma extractLOD_value:
  assumes "isQAStone (JStr s)"
  shows "extractLOD p (JStr s) lv =
     (JStr (lod_value p s lv),
      p\<lparr>lodCache := (lodCache p)(lod_cache_key s lv \<mapsto> lod_value p s lv)\<rparr>)"
proof (cases "lodCache p (lod_cache_key s lv)")
  case None
  then show ?thesis
    by (simp only: extractLOD_stone [OF assms]) (simp add: lod_value_def)
next
  case (Some r)
  then have "(lodCache p)(lod_cache_key s lv \<mapsto> r) = lodCache p"
    by (simp add: fun_upd_idem)
  with Some show ?thesis
    by (simp only: extractLOD_stone [OF assms]) (simp add: lod_value_def)
qed

lemma lod_cache_key_inj:
  assumes "lv < 10" and "lv' < 10"
  shows "lod_cache_key s lv = lod_cache_key s lv' \<longleftrightarrow> lv = lv'"
  using assms by (simp add: lod_cache_key_def dec_digit)

lemma lod_value_after:
  assumes "lv < 10" and "lv' < 10"
  shows "lod_value (p\<lparr>lodCache := (lodCache p)(lod_cache_key s lv \<mapsto> lod_value p s lv)\<rparr>) s lv'
     = lod_value p s lv'"
proof (cases "lv' = lv")
  case True
  then show ?thesis by (simp add: lod_value_def)
next
  case False
  with assms have "lod_cache_key s lv' \<noteq> lod_cache_key s lv"
    by (simp add: lod_cache_key_inj)
  then show ?thesis by (simp add: lod_value_def)
qed

lemma lods_loop_entries:
  assumes "isQAStone (JStr s)" and "\<forall>l\<in>set lvs. l < 10"
  shows "\<exists>p'. lods_loop p (JStr s) lvs = (lod_entries p s lvs, p')
     \<and> headerCache p' = headerCache p
     \<and> (\<forall>l<10. lod_value p' s l = lod_value p s l)"
  using assms(2)
proof (induction lvs arbitrary: p)
  case Nil
  show ?case by (simp add: lod_entries_def)
next
  case (Cons lv lvs)
  let ?p1 = "p\<lparr>lodCache := (lodCache p)(lod_cache_key s lv \<mapsto> lod_value p s lv)\<rparr>"
  from Cons.prems have lv: "lv < 10" and rest: "\<forall>l\<in>set lvs. l < 10" by simp_all
  from Cons.IH [OF rest, of ?p1] obtain p' where
    loop: "lods_loop ?p1 (JStr s) lvs = (lod_entries ?p1 s lvs, p')"
    and hc: "headerCache p' = headerCache ?p1"
    and same: "\<forall>l<10. lod_value p' s l = lod_value ?p1 s l"
    by blast
  have keep: "lod_value ?p1 s l = lod_value p s l" if "l < 10" for l
    using lv that by (rule lod_value_after)
  have "lod_entries ?p1 s lvs = lod_entries p s lvs"
    unfolding lod_entries_def using rest keep by (intro arg_cong [where f = concat] map_cong) auto
  with loop have "lods_loop p (JStr s) (lv # lvs) = (lod_entries p s (lv # lvs), p')"
    by (simp add: extractLOD_value [OF assms(1)] lod_entries_def del: extractLOD.simps)
  moreover have "headerCache p' = headerCache p" using hc by simp
  moreover have "\<forall>l<10. lod_value p' s l = lod_value p s l" using same keep by simp
  ultimately show ?case by blast
qed

section \<open>Token estimates of longer texts\<close>

lemma join_Cons: "ys \<noteq> [] \<Longrightarrow> join sep (x # ys) = x @ sep @ join sep ys"
  by (cases ys) simp_all

lemma prefix_join: "prefix xs ys \<Longrightarrow> prefix (join sep xs) (join sep ys)"
proof (induction xs arbitrary: ys)
  case Nil
  show ?case by simp
next
  case (Cons x xs)
  from Cons.prems obtain ys' where ys: "ys = x # ys'" and p: "prefix xs ys'"
    by (cases ys) auto
  show ?case
  proof (cases "xs = []")
    case True
    then show ?thesis by (cases ys') (simp_all add: ys)
  next
    case False
    with p have "ys' \<noteq> []" by auto
    with False Cons.IH [OF p] show ?thesis by (simp add: ys join_Cons)
  qed
qed

text \<open>The number of pieces of \<open>split(/d+/)\<close>, and why a longer text has no fewer pieces.\<close>

lemma split_runs_length_ge1: "1 \<le> length (split_runs m d s)"
  by (induction m d s rule: split_runs.induct) (auto simp add: split_runs.simps split: list.splits)

lemma pieces_Nil: "length (split_runs 0 d []) = 1"
  by (simp add: split_runs.simps)

lemma pieces_Cons:
  "length (split_runs 0 d (x # xs)) =
     (if d x then 1 + length (split_runs 0 d (dropWhile d xs)) else length (split_runs 0 d xs))"
proof (cases "d x")
  case True
  then show ?thesis by (simp add: split_runs.simps(2) [of 0 d x xs])
next
  case False
  obtain p ps where "split_runs 0 d xs = p # ps"
    using split_runs_length_ge1 [of 0 d xs] by (cases "split_runs 0 d xs") auto
  with False show ?thesis by (simp add: split_runs.simps(2) [of 0 d x xs])
qed

lemma pieces_append: "length (split_runs 0 d a) \<le> length (split_runs 0 d (a @ c))"
proof (induction a rule: length_induct)
  case (1 a)
  show ?case
  proof (cases a)
    case Nil
    then show ?thesis using split_runs_length_ge1 [of 0 d c] by (simp add: pieces_Nil)
  next
    case (Cons x xs)
    show ?thesis
    proof (cases "d x")
      case False
      have "length xs < length a" by (simp add: Cons)
      with 1 have "length (split_runs 0 d xs) \<le> length (split_runs 0 d (xs @ c))" by blast
      with False show ?thesis by (simp add: Cons pieces_Cons)
    next
      case True
      show ?thesis
      proof (cases "\<forall>y\<in>set xs. d y")
        case all: True
        then have dn: "dropWhile d xs = []" by simp
        from all have dc: "dropWhile d (xs @ c) = dropWhile d c"
          by (simp add: dropWhile_append)
        have "length (split_runs 0 d a) = 1 + length (split_runs 0 d [])"
          using True by (simp only: Cons pieces_Cons dn if_True)
        also have "\<dots> = 1 + 1" by (simp only: pieces_Nil)
        also have "\<dots> \<le> 1 + length (split_runs 0 d (dropWhile d c))"
          using split_runs_length_ge1 [of 0 d "dropWhile d c"] by simp
        also have "\<dots> = length (split_runs 0 d (a @ c))"
          using True by (simp only: Cons append_Cons pieces_Cons dc if_True)
        finally show ?thesis .
      next
        case some: False
        then have eq: "dropWhile d (xs @ c) = dropWhile d xs @ c"
          by (auto simp add: dropWhile_append)
        have "length (dropWhile d xs) < length a"
          using length_dropWhile_le [of d xs] by (simp add: Cons)
        with 1 have "length (split_runs 0 d (dropWhile d xs))
            \<le> length (split_runs 0 d (dropWhile d xs @ c))" by blast
        with True show ?thesis by (simp add: Cons pieces_Cons eq)
      qed
    qed
  qed
qed

lemma estimateTokens_nonneg: "0 \<le> estimateTokens s"
  by (simp add: estimateTokens_def pos_imp_zdiv_nonneg_iff)

lemma estimateTokens_prefix:
  assumes "prefix a b"
  shows "estimateTokens a \<le> estimateTokens b"
proof (cases "a = []")
  case True
  then show ?thesis using estimateTokens_nonneg [of b] by (simp add: estimateTokens_def)
next
  case False
  from assms obtain c where b: "b = a @ c" by (auto simp add: prefix_def)
  with False have "b \<noteq> []" by simp
  moreover have "word_count a \<le> word_count b"
    unfolding word_count_def b by (rule pieces_append)
  ultimately show ?thesis using False by (simp add: estimateTokens_def)
qed

lemma lod_entries_prefix:
  "prefix lvs lvs' \<Longrightarrow> prefix (lod_entries p s lvs) (lod_entries p s lvs')"
  by (auto simp add: lod_entries_def prefix_def)

lemma upt_prefix: "lv \<le> 3 \<Longrightarrow> prefix [0..<Suc lv] [0..<4]"
proof -
  assume "lv \<le> 3"
  then have "[0..<4] = [0..<Suc lv] @ [Suc lv..<4]"
    using upt_add_eq_append [of 0 "Suc lv" "3 - lv"] by simp
  then show ?thesis by (simp add: prefix_def)
qed

lemma parseHeader_value:
  assumes "isQAStone (JStr s)"
  shows "\<exists>p1. parseHeader p (JStr s) = (Inr (header_value p s), p1) \<and> lodCache p1 = lodCache p"
  using assms by (auto simp add: header_value_def Let_def split: option.splits if_splits)

text \<open>The result of getTokenSavings on a stone, in terms of what the caches answer.\<close>

lemma getTokenSavings_stone:
  assumes "isQAStone (JStr s)" and "lv < 10"
  shows "fst (getTokenSavings p (JStr s) lv) =
     (let hT = estimateTokens (raw_header (header_value p s));
          fT = estimateTokens (join [10, 10] (map (to_string \<circ> snd) (lod_entries p s [0..<4])));
          lT = estimateTokens (join [10, 10] (map (to_string \<circ> snd) (lod_entries p s [0..<Suc lv])))
                 + hT
      in Inr \<lparr>saved = fT - lT,
              percentage = (if fT > 0 then round_percentage (fT - lT) fT else 0),
              headerTokens = hT, loadedTokens = Some lT, fullTokens = fT\<rparr>)"
proof -
  obtain p1 where ph: "parseHeader p (JStr s) = (Inr (header_value p s), p1)"
    and c1: "lodCache p1 = lodCache p"
    using parseHeader_value [OF assms(1)] by blast
  have v1: "lod_value p1 s l = lod_value p s l" for l
    by (simp add: lod_value_def c1)
  have e1: "lod_entries p1 s lvs = lod_entries p s lvs" for lvs
    by (simp add: lod_entries_def v1 cong: if_cong)
  have "\<forall>l\<in>set [0..<4]. l < (10::nat)" by simp
  from lods_loop_entries [OF assms(1) this, of p1] obtain p2 where
    l1: "lods_loop p1 (JStr s) [0..<4] = (lod_entries p s [0..<4], p2)"
    and v2: "\<forall>l<10. lod_value p2 s l = lod_value p s l"
    by (auto simp add: e1 v1)
  have small: "\<forall>l\<in>set [0..<Suc lv]. l < 10" using assms(2) by auto
  have e2: "lod_entries p2 s [0..<Suc lv] = lod_entries p s [0..<Suc lv]"
    unfolding lod_entries_def using v2 small
    by (intro arg_cong [where f = concat] map_cong) auto
  from lods_loop_entries [OF assms(1) small, of p2] obtain p3 where
    "lods_loop p2 (JStr s) [0..<Suc lv] = (lod_entries p2 s [0..<Suc lv], p3)"
    by blast
  then have l2: "lods_loop p2 (JStr s) [0..<Suc lv] = (lod_entries p s [0..<Suc lv], p3)"
    by (simp only: e2)
  have four: "Suc 3 = 4" by simp
  show ?thesis
    using assms(1)
    by (simp add: getTokenSavings_def ph extractLODsUpTo_def four l1 l2 Let_def
        del: isQAStone.simps parseHeader.simps upt_Suc)
qed

section \<open>The pieces of a split\<close>

text \<open>The pieces of a split are stretches of the text, and a later piece follows a separator.\<close>

lemma split_runs_Cons_cases:
  "(m < length (takeWhile d (x # xs)) \<and> split_runs m d (x # xs) = [] # split_runs m d (dropWhile d (x # xs)))
   \<or> (\<not> m < length (takeWhile d (x # xs))
       \<and> (\<exists>p ps. split_runs m d xs = p # ps \<and> split_runs m d (x # xs) = (x # p) # ps))"
proof (cases "m < length (takeWhile d (x # xs))")
  case True
  then show ?thesis by (simp add: split_runs.simps(2) [of m d x xs])
next
  case False
  obtain p ps where "split_runs m d xs = p # ps"
    using split_runs_length_ge1 [of m d xs] by (cases "split_runs m d xs") auto
  with False show ?thesis by (simp add: split_runs.simps(2) [of m d x xs])
qed

lemma split_runs_hd_prefix: "prefix (hd (split_runs m d s)) s"
proof (induction m d s rule: split_runs.induct)
  case (1 m d)
  show ?case by (simp add: split_runs.simps)
next
  case (2 m d x xs)
  from split_runs_Cons_cases [of m d x xs] show ?case
  proof
    assume "m < length (takeWhile d (x # xs))
      \<and> split_runs m d (x # xs) = [] # split_runs m d (dropWhile d (x # xs))"
    then show ?thesis by simp
  next
    assume a: "\<not> m < length (takeWhile d (x # xs))
       \<and> (\<exists>p ps. split_runs m d xs = p # ps \<and> split_runs m d (x # xs) = (x # p) # ps)"
    then obtain p ps where p: "split_runs m d xs = p # ps"
      and q: "split_runs m d (x # xs) = (x # p) # ps" by blast
    from a "2.IH"(2) have "prefix (hd (split_runs m d xs)) xs" by simp
    with p q show ?thesis by simp
  qed
qed

lemma split_runs_sublist: "p \<in> set (split_runs m d s) \<Longrightarrow> sublist p s"
proof (induction m d s arbitrary: p rule: split_runs.induct)
  case (1 m d)
  then show ?case by (simp add: split_runs.simps)
next
  case (2 m d x xs)
  from split_runs_Cons_cases [of m d x xs] show ?case
  proof
    assume a: "m < length (takeWhile d (x # xs))
      \<and> split_runs m d (x # xs) = [] # split_runs m d (dropWhile d (x # xs))"
    with "2.prems" have "p = [] \<or> p \<in> set (split_runs m d (dropWhile d (x # xs)))" by simp
    then show ?thesis
    proof
      assume "p = []" then show ?thesis by simp
    next
      assume "p \<in> set (split_runs m d (dropWhile d (x # xs)))"
      with a "2.IH"(1) have "sublist p (dropWhile d (x # xs))" by blast
      moreover have "sublist (dropWhile d (x # xs)) (x # xs)" by (rule sublist_dropWhile)
      ultimately show ?thesis by (rule sublist_order.order.trans)
    qed
  next
    assume a: "\<not> m < length (takeWhile d (x # xs))
       \<and> (\<exists>p ps. split_runs m d xs = p # ps \<and> split_runs m d (x # xs) = (x # p) # ps)"
    then obtain q qs where q: "split_runs m d xs = q # qs"
      and r: "split_runs m d (x # xs) = (x # q) # qs" by blast
    from "2.prems" r have "p = x # q \<or> p \<in> set qs" by simp
    then show ?thesis
    proof
      assume "p = x # q"
      moreover have "prefix q xs" using split_runs_hd_prefix [of m d xs] q by simp
      ultimately have "prefix p (x # xs)" by simp
      then show ?thesis by (rule prefix_imp_sublist)
    next
      assume "p \<in> set qs"
      with q have "p \<in> set (split_runs m d xs)" by simp
      with a "2.IH"(2) have "sublist p xs" by blast
      then show ?thesis by (simp add: sublist_Cons_right)
    qed
  qed
qed

text \<open>A paragraph after the first one follows a line feed.\<close>

lemma paragraph_after_newline:
  "p \<in> set (tl (split_runs m (\<lambda>c. c = 10) s)) \<Longrightarrow> sublist (10 # p) s"
proof (induction m "\<lambda>c::nat. c = 10" s arbitrary: p rule: split_runs.induct)
  case (1 m)
  then show ?case by (simp add: split_runs.simps)
next
  case (2 m x xs)
  let ?d = "\<lambda>c::nat. c = 10"
  from split_runs_Cons_cases [of m ?d x xs] show ?case
  proof
    assume a: "m < length (takeWhile ?d (x # xs))
      \<and> split_runs m ?d (x # xs) = [] # split_runs m ?d (dropWhile ?d (x # xs))"
    let ?r = "dropWhile ?d (x # xs)"
    from a "2.prems" have mem: "p \<in> set (split_runs m ?d ?r)" by simp
    obtain q qs where q: "split_runs m ?d ?r = q # qs"
      using split_runs_length_ge1 [of m ?d ?r] by (cases "split_runs m ?d ?r") auto
    have x: "x = 10"
    proof (rule ccontr)
      assume "x \<noteq> 10"
      then have "takeWhile ?d (x # xs) = []" by simp
      with a show False by simp
    qed
    have run: "\<exists>u. x # xs = u @ 10 # ?r"
    proof -
      have "takeWhile ?d (x # xs) \<noteq> []" using x by simp
      then obtain u where u: "takeWhile ?d (x # xs) = u @ [last (takeWhile ?d (x # xs))]"
        by (metis append_butlast_last_id)
      have "last (takeWhile ?d (x # xs)) \<in> set (takeWhile ?d (x # xs))"
        using \<open>takeWhile ?d (x # xs) \<noteq> []\<close> by (rule last_in_set)
      then have "last (takeWhile ?d (x # xs)) = 10" by (auto dest: set_takeWhileD)
      with u have "takeWhile ?d (x # xs) = u @ [10]" by simp
      then have "x # xs = (u @ [10]) @ ?r"
        using takeWhile_dropWhile_id [of ?d "x # xs"] by metis
      then have "x # xs = u @ 10 # ?r"
        by (simp only: append_assoc append_Cons append_Nil)
      then show ?thesis by blast
    qed
    from mem q have "p = q \<or> p \<in> set qs" by simp
    then show ?thesis
    proof
      assume "p = q"
      then have "prefix p ?r" using split_runs_hd_prefix [of m ?d ?r] q by simp
      then obtain w where "?r = p @ w" by (auto simp add: prefix_def)
      with run obtain u where "x # xs = u @ (10 # p) @ w" by auto
      then show ?thesis unfolding sublist_def by blast
    next
      assume "p \<in> set qs"
      with q have "p \<in> set (tl (split_runs m ?d ?r))" by simp
      with a "2.hyps"(1) have "sublist (10 # p) ?r" by blast
      moreover have "sublist ?r (x # xs)" by (rule sublist_dropWhile)
      ultimately show ?thesis by (rule sublist_order.order.trans)
    qed
  next
    assume a: "\<not> m < length (takeWhile ?d (x # xs))
       \<and> (\<exists>p ps. split_runs m ?d xs = p # ps \<and> split_runs m ?d (x # xs) = (x # p) # ps)"
    then obtain q qs where q: "split_runs m ?d xs = q # qs"
      and r: "split_runs m ?d (x # xs) = (x # q) # qs" by blast
    from "2.prems" r q have "p \<in> set (tl (split_runs m ?d xs))" by simp
    with a "2.hyps"(2) have "sublist (10 # p) xs" by blast
    then show ?thesis by (simp add: sublist_Cons_right)
  qed
qed

lemma filter_second: "1 < length (filter P xs) \<Longrightarrow> filter P xs ! 1 \<in> set (tl xs)"
proof (induction xs)
  case Nil
  then show ?case by simp
next
  case (Cons x xs)
  show ?case
  proof (cases "P x")
    case True
    with Cons.prems have "filter P xs \<noteq> []" by auto
    then have "0 < length (filter P xs)" by simp
    then have "filter P xs ! 0 \<in> set (filter P xs)" by (rule nth_mem)
    then have "filter P xs ! 0 \<in> set xs" by simp
    with True show ?thesis by simp
  next
    case False
    with Cons.prems have "1 < length (filter P xs)" by simp
    then have "filter P xs ! 1 \<in> set (filter P xs)" by (rule nth_mem)
    with False show ?thesis by simp
  qed
qed

section \<open>Lines and occurrences\<close>

text \<open>Lines and occurrences: a later line starts with \<open>w\<close> exactly when the text has a line
  feed followed by \<open>w\<close>.\<close>

lemma split_char_hd_prefix: "prefix (hd (split_char c t)) t"
proof (induction t)
  case Nil
  show ?case by simp
next
  case (Cons x t)
  obtain p ps where "split_char c t = p # ps"
    using split_char_nonempty [of c t] by (cases "split_char c t") auto
  with Cons show ?case by simp
qed

lemma line_start_sublist:
  "l \<in> set (tl (split_char 10 t)) \<Longrightarrow> prefix w l \<Longrightarrow> sublist (10 # w) t"
proof (induction t)
  case Nil
  then show ?case by simp
next
  case (Cons x t)
  obtain p ps where p: "split_char 10 t = p # ps"
    using split_char_nonempty [of 10 t] by (cases "split_char 10 t") auto
  show ?case
  proof (cases "x = 10")
    case False
    with Cons.prems p have "l \<in> set (tl (split_char 10 t))" by simp
    with Cons have "sublist (10 # w) t" by blast
    then show ?thesis by (simp add: sublist_Cons_right)
  next
    case True
    with Cons.prems p have "l = p \<or> l \<in> set (tl (split_char 10 t))" by simp
    then show ?thesis
    proof
      assume "l = p"
      then have "prefix l t" using split_char_hd_prefix [of 10 t] p by simp
      with Cons.prems(2) have "prefix w t" by (rule prefix_order.trans)
      with True have "prefix (10 # w) (x # t)" by simp
      then show ?thesis by (rule prefix_imp_sublist)
    next
      assume "l \<in> set (tl (split_char 10 t))"
      with Cons have "sublist (10 # w) t" by blast
      then show ?thesis by (simp add: sublist_Cons_right)
    qed
  qed
qed

lemma split_char_prepend:
  "c \<notin> set a \<Longrightarrow> split_char c (a @ t) = (a @ hd (split_char c t)) # tl (split_char c t)"
proof (induction a)
  case Nil
  then show ?case using split_char_nonempty [of c t] by simp
next
  case (Cons x a)
  then show ?case by simp
qed

lemma sublist_line_start:
  assumes "10 \<notin> set w" and "sublist (10 # w) t"
  shows "\<exists>l\<in>set (tl (split_char 10 t)). prefix w l"
proof -
  from assms(2) obtain u v where t: "t = u @ (10 # w) @ v"
    by (auto simp add: sublist_def)
  then have "split_char 10 t = split_char 10 u @ split_char 10 (w @ v)"
    by (simp add: split_char_append)
  also have "split_char 10 (w @ v) = (w @ hd (split_char 10 v)) # tl (split_char 10 v)"
    using assms(1) by (rule split_char_prepend)
  finally have "w @ hd (split_char 10 v) \<in> set (tl (split_char 10 t))"
    using split_char_nonempty [of 10 u] by (cases "split_char 10 u") auto
  moreover have "prefix w (w @ hd (split_char 10 v))" by simp
  ultimately show ?thesis by blast
qed

text \<open>An occurrence in two texts joined by a separator that shares no code unit with it lies
  in one of the two texts.\<close>

lemma sublist_across:
  assumes "sublist z (a @ sp @ b)" and "set z \<inter> set sp = {}" and "sp \<noteq> []"
  shows "sublist z a \<or> sublist z b"
proof -
  have inner: "sublist z a \<or> sublist z b" if "sublist z (sp @ b)"
  proof -
    from that have "sublist z sp \<or> sublist z b
        \<or> (\<exists>z1 z2. z = z1 @ z2 \<and> suffix z1 sp \<and> prefix z2 b)"
      by (simp add: sublist_append [of z sp])
    then show ?thesis
    proof (elim disjE exE conjE)
      assume "sublist z sp"
      then have "set z \<subseteq> set sp" by (rule set_mono_sublist)
      then have "set z \<inter> set sp = set z" by (rule Int_absorb2)
      with assms(2) have "set z = {}" by simp
      then have "z = []" by simp
      then show ?thesis by simp
    next
      assume "sublist z b"
      then show ?thesis by simp
    next
      fix z1 z2
      assume z: "z = z1 @ z2" and s1: "suffix z1 sp" and p2: "prefix z2 b"
      show ?thesis
      proof (cases "z1 = []")
        case True
        with z p2 have "prefix z b" by simp
        then show ?thesis by (simp add: prefix_imp_sublist)
      next
        case False
        then have "last z1 \<in> set z1" by simp
        moreover from s1 have "set z1 \<subseteq> set sp" by (rule set_mono_suffix)
        ultimately have "last z1 \<in> set sp" by blast
        moreover from z False have "last z1 \<in> set z" by simp
        ultimately have "last z1 \<in> set z \<inter> set sp" by blast
        with assms(2) show ?thesis by simp
      qed
    qed
  qed
  from assms(1) have "sublist z a \<or> sublist z (sp @ b)
      \<or> (\<exists>z1 z2. z = z1 @ z2 \<and> suffix z1 a \<and> prefix z2 (sp @ b))"
    by (simp add: sublist_append [of z a])
  then show ?thesis
  proof (elim disjE exE conjE)
    assume "sublist z a"
    then show ?thesis by simp
  next
    assume "sublist z (sp @ b)"
    then show ?thesis by (rule inner)
  next
    fix z1 z2
    assume z: "z = z1 @ z2" and s1: "suffix z1 a" and p2: "prefix z2 (sp @ b)"
    show ?thesis
    proof (cases "z2 = []")
      case True
      with z s1 have "suffix z a" by simp
      then show ?thesis by (simp add: suffix_imp_sublist)
    next
      case False
      from False obtain y ys where z2: "z2 = y # ys" by (cases z2) auto
      from assms(3) obtain q qs where sp: "sp = q # qs" by (cases sp) auto
      from p2 have "hd z2 = hd sp" by (simp add: z2 sp)
      moreover from z False have "hd z2 \<in> set z" by (cases z2) auto
      moreover from assms(3) have "hd sp \<in> set sp" by simp
      ultimately have "hd sp \<in> set z \<inter> set sp" by simp
      with assms(2) show ?thesis by simp
    qed
  qed
qed

section \<open>Line starts in the generated levels\<close>

text \<open>The generated LOD-0 and LOD-1 texts have a line feed followed by \<open>LOD-\<close> only where
  the content has one.\<close>

lemma lod_start_val: "10 # asc ''LOD-'' = [10, 76, 79, 68, 45]"
  by (simp add: asc_def)

lemma heuristic_lod0_occurrence:
  assumes "sublist (10 # asc ''LOD-'') (heuristic_lod0 c)"
  shows "sublist (10 # asc ''LOD-'') c"
proof -
  let ?z = "10 # asc ''LOD-''"
  define sentences where "sentences = filter (\<lambda>x. trim x \<noteq> []) (split_runs 0 is_sentence_end c)"
  define l0 where "l0 = (case sentences of [] \<Rightarrow> take 100 c | x # _ \<Rightarrow> if x = [] then take 100 c else x)"
  define l0' where "l0' = (if length sentences > 1 \<and> length l0 < 50
                 then l0 @ asc ''. '' @ sentences ! 1 else l0)"
  have lod0: "heuristic_lod0 c = take 150 l0'"
    unfolding heuristic_lod0_def Let_def sentences_def l0_def l0'_def ..
  have piece: "sublist x c" if "x \<in> set sentences" for x
    using that unfolding sentences_def by (auto intro: split_runs_sublist)
  have s0: "sublist l0 c"
  proof (cases sentences)
    case Nil
    then show ?thesis by (simp add: l0_def)
  next
    case (Cons x xs)
    then have "x \<in> set sentences" by simp
    then have "sublist x c" by (rule piece)
    with Cons show ?thesis by (simp add: l0_def)
  qed
  have "sublist ?z l0'"
    using assms sublist_take [of 150 l0'] unfolding lod0 by (rule sublist_order.order.trans)
  then have "sublist ?z l0 \<or> (1 < length sentences \<and> sublist ?z (sentences ! 1))"
  proof (cases "length sentences > 1 \<and> length l0 < 50")
    case False
    then have "l0' = l0" unfolding l0'_def by (rule if_not_P)
    with \<open>sublist ?z l0'\<close> show ?thesis by simp
  next
    case True
    then have "l0' = l0 @ asc ''. '' @ sentences ! 1" unfolding l0'_def by (rule if_P)
    with \<open>sublist ?z l0'\<close> have "sublist ?z (l0 @ asc ''. '' @ sentences ! 1)" by simp
    then have "sublist ?z l0 \<or> sublist ?z (sentences ! 1)"
      by (rule sublist_across) (simp_all add: asc_def)
    with True show ?thesis by blast
  qed
  then show ?thesis
  proof
    assume "sublist ?z l0"
    then show ?thesis using s0 by (rule sublist_order.order.trans)
  next
    assume a: "1 < length sentences \<and> sublist ?z (sentences ! 1)"
    then have "sentences ! 1 \<in> set sentences" by (simp add: nth_mem)
    then have "sublist (sentences ! 1) c" by (rule piece)
    with a show ?thesis by (blast intro: sublist_order.order.trans)
  qed
qed

lemma heuristic_lod1_occurrence:
  assumes "sublist (10 # asc ''LOD-'') (heuristic_lod1 c)"
  shows "sublist (10 # asc ''LOD-'') c"
proof -
  let ?w = "asc ''LOD-''"
  let ?z = "10 # ?w"
  define pieces where "pieces = split_runs 1 (\<lambda>c. c = 10) c"
  define paragraphs where "paragraphs = filter (\<lambda>x. trim x \<noteq> []) pieces"
  define l1 where "l1 = (case paragraphs of [] \<Rightarrow> take 500 c | x # _ \<Rightarrow> if x = [] then take 500 c else x)"
  define l1' where "l1' = (if length l1 < 100 \<and> length paragraphs > 1
                 then l1 @ [10, 10] @ paragraphs ! 1 else l1)"
  have lod1: "heuristic_lod1 c = take 500 l1'"
    unfolding heuristic_lod1_def Let_def paragraphs_def pieces_def l1_def l1'_def ..
  have piece: "sublist x c" if "x \<in> set paragraphs" for x
    using that unfolding paragraphs_def pieces_def by (auto intro: split_runs_sublist)
  have s1: "sublist l1 c"
  proof (cases paragraphs)
    case Nil
    then show ?thesis by (simp add: l1_def)
  next
    case (Cons x xs)
    then have "x \<in> set paragraphs" by simp
    then have "sublist x c" by (rule piece)
    with Cons show ?thesis by (simp add: l1_def)
  qed
  have in_l1': "sublist ?z l1'"
    using assms sublist_take [of 500 l1'] unfolding lod1 by (rule sublist_order.order.trans)
  show ?thesis
  proof (cases "length l1 < 100 \<and> length paragraphs > 1")
    case False
    then have "l1' = l1" unfolding l1'_def by (rule if_not_P)
    with in_l1' have "sublist ?z l1" by simp
    then show ?thesis using s1 by (rule sublist_order.order.trans)
  next
    case True
    let ?p = "paragraphs ! 1"
    from True have "?p \<in> set (tl pieces)"
      unfolding paragraphs_def by (intro filter_second) simp
    then have after: "sublist (10 # ?p) c"
      unfolding pieces_def by (rule paragraph_after_newline)
    then have inp: "sublist ?p c"
      by (metis sublist_Cons_right sublist_order.order.trans sublist_order.order.refl)
    from True have "l1' = l1 @ [10, 10] @ ?p" unfolding l1'_def by (rule if_P)
    then have "l1' = l1 @ [10] @ (10 # ?p)" by simp
    with in_l1' have "sublist ?z (l1 @ [10] @ (10 # ?p))" by (simp only:)
    then have "sublist ?z l1 \<or> sublist ?z ([10] @ 10 # ?p)
        \<or> (\<exists>z1 z2. ?z = z1 @ z2 \<and> suffix z1 l1 \<and> prefix z2 ([10] @ 10 # ?p))"
      by (simp add: sublist_append [of ?z l1])
    then show ?thesis
    proof (elim disjE exE conjE)
      assume "sublist ?z l1"
      then show ?thesis using s1 by (rule sublist_order.order.trans)
    next
      assume "sublist ?z ([10] @ 10 # ?p)"
      then have "prefix ?z (10 # 10 # ?p) \<or> prefix ?z (10 # ?p) \<or> sublist ?z ?p"
        by (simp add: sublist_Cons_right)
      then show ?thesis
      proof (elim disjE)
        assume "prefix ?z (10 # 10 # ?p)"
        then show ?thesis by (simp add: asc_def)
      next
        assume "prefix ?z (10 # ?p)"
        then have "sublist ?z (10 # ?p)" by (rule prefix_imp_sublist)
        then show ?thesis using after by (rule sublist_order.order.trans)
      next
        assume "sublist ?z ?p"
        then show ?thesis using inp by (rule sublist_order.order.trans)
      qed
    next
      fix z1 z2
      assume z: "?z = z1 @ z2" and s: "suffix z1 l1" and p: "prefix z2 ([10] @ 10 # ?p)"
      show ?thesis
      proof (cases "z2 = []")
        case True
        with z s have "suffix ?z l1" by simp
        then have "sublist ?z l1" by (rule suffix_imp_sublist)
        then show ?thesis using s1 by (rule sublist_order.order.trans)
      next
        case nz2: False
        show ?thesis
        proof (cases "z1 = []")
          case True
          with z p have "prefix ?z (10 # 10 # ?p)" by simp
          then show ?thesis by (simp add: asc_def)
        next
          case False
          from nz2 p have "hd z2 = 10" by (cases z2) auto
          moreover from False z have "z2 \<in> set (suffixes ?w) \<or> z2 = []"
            by (cases z1) (auto simp add: in_set_suffixes suffix_def)
          moreover have "10 \<notin> set ?w" by (simp add: asc_def)
          ultimately show ?thesis using nz2
            by (metis hd_in_set in_set_suffixes set_mono_suffix subsetD)
        qed
      qed
    qed
  qed
qed

section \<open>Token savings of two stones\<close>

lemmas eval_double =
  round_percentage_def to_double_def binary_exponent_def round_half_even_def bit_length.simps
  Let_def

lemma lod_value_new_parser: "lod_value new_parser s lv = lod_text s lv"
  by (simp add: lod_value_def new_parser_def)

lemma header_value_new_parser: "header_value new_parser s = parse_header_text s"
  by (simp add: header_value_def new_parser_def)

lemma lod_texts_Aa:
  "lod_text stone_Aa 0 = asc ''Aa''" "lod_text stone_Aa 1 = asc ''Aa''" "lod_text stone_Aa 3 = []"
  by (simp add: lod_text_def lod_marker_def stone_Aa_val; simp add: eval_text eval_rec)+

lemma entries_Aa:
  "lod_entries new_parser stone_Aa [0..<4]
     = [(0, JStr (asc ''Aa'')), (1, JStr (asc ''Aa'')), (2, JStr (asc ''Aa''))]"
proof -
  have one: "lod_text stone_Aa (Suc 0) = asc ''Aa''"
    using lod_texts_Aa(2) by simp
  show ?thesis
    by (simp add: lod_entries_def lod_value_new_parser upt_4 lod_texts_Aa lod_text_Aa one)
      (simp add: asc_def)
qed

lemma raw_header_Aa:
  "raw_header (parse_header_text stone_Aa) =
     open_marker @ [10] @ asc ''border_hash: 00000840''
     @ [10] @ asc ''glow_channel: context''
     @ [10] @ asc ''stone_type: clipboard''
     @ [10] @ asc ''created: 2026-01-01T00:00:00.000Z''
     @ [10] @ asc ''source_agent: user''
     @ [10] @ asc ''lod_count: 3''
     @ [10] @ asc ''fortune: context:general:simple''
     @ [10] @ separator"
  by (simp add: parse_header_text_def stone_Aa_val Let_def)
    (simp add: header_line_def indexOf_def parseInt10_def is_digit_def digits_value_def
      empty_header_def Let_def eval_text)

lemma header_tokens_Aa: "estimateTokens (raw_header (parse_header_text stone_Aa)) = 12"
  by (simp add: raw_header_Aa estimateTokens_def word_count_def)
    (simp add: eval_text eval_rec)

lemma level_tokens_Aa:
  "estimateTokens (asc ''Aa'' @ 10 # 10 # asc ''Aa'' @ 10 # 10 # asc ''Aa'') = 3"
  by (simp add: estimateTokens_def word_count_def eval_text eval_rec)

lemma savings_Aa:
  "fst (getTokenSavings new_parser (JStr stone_Aa) 3)
       = Inr \<lparr>saved = - 12, percentage = - 400, headerTokens = 12,
              loadedTokens = Some 15, fullTokens = 3\<rparr>"
proof -
  have four: "[0..<Suc 3] = [0..<4]" by (simp add: upt_rec)
  have pct: "round_percentage (- 12) 3 = - 400" by (simp add: eval_double)
  show ?thesis
    unfolding getTokenSavings_stone [OF stones_isQAStone(1), of 3 new_parser, simplified]
      four entries_Aa header_value_new_parser header_tokens_Aa Let_def
    by (simp add: level_tokens_Aa pct)
qed

text \<open>The stone with the tie.\<close>

lemma tie_stone_val:
  "tie_stone =
     open_marker @ [10] @ asc ''border_hash: 00000078''
     @ [10] @ asc ''glow_channel: context''
     @ [10] @ asc ''stone_type: clipboard''
     @ [10] @ asc ''created: 2026-01-01T00:00:00.000Z''
     @ [10] @ asc ''source_agent: user''
     @ [10] @ asc ''lod_count: 2''
     @ [10] @ asc ''fortune: context:general:simple''
     @ [10] @ separator
     @ [10] @ asc ''LOD-0: a a a a a a'' @ [10] @ separator
     @ [10] @ asc ''LOD-1: a a a a a a a a a a a a a a a a a a a a a a a a a a a a a a a a a a a a a a a a a a a a a a a''
     @ [10] @ separator
     @ [10] @ close_marker"
  by (simp add: tie_stone_def tie_options_def buildStone_def example_timestamp_def
      glow_channel_of_def stone_type_of_def source_agent_of_def hash_x fortune_x Let_def upt_rec)
    (simp add: eval_text eval_rec)

lemma tie_isQAStone: "isQAStone (JStr tie_stone)"
  by (simp only: tie_stone_def isQAStone_buildStone)

lemma lod_texts_tie:
  "lod_text tie_stone 0 = asc ''a a a a a a''"
  "lod_text tie_stone 1 = asc ''a a a a a a a a a a a a a a a a a a a a a a a a a a a a a a a a a a a a a a a a a a a a a a a''"
  "lod_text tie_stone 2 = []"
  "lod_text tie_stone 3 = []"
  by (simp add: lod_text_def lod_marker_def tie_stone_val; simp add: eval_text eval_rec)+

lemma entries_tie:
  "lod_entries new_parser tie_stone [0..<4]
     = [(0, JStr (asc ''a a a a a a'')),
        (1, JStr (asc ''a a a a a a a a a a a a a a a a a a a a a a a a a a a a a a a a a a a a a a a a a a a a a a a''))]"
  "lod_entries new_parser tie_stone [0] = [(0, JStr (asc ''a a a a a a''))]"
proof -
  have one: "lod_text tie_stone (Suc 0) = asc ''a a a a a a a a a a a a a a a a a a a a a a a a a a a a a a a a a a a a a a a a a a a a a a a''"
    using lod_texts_tie(2) by simp
  show "lod_entries new_parser tie_stone [0..<4]
     = [(0, JStr (asc ''a a a a a a'')),
        (1, JStr (asc ''a a a a a a a a a a a a a a a a a a a a a a a a a a a a a a a a a a a a a a a a a a a a a a a''))]"
    by (simp add: lod_entries_def lod_value_new_parser upt_4 lod_texts_tie one)
      (simp add: asc_def)
  show "lod_entries new_parser tie_stone [0] = [(0, JStr (asc ''a a a a a a''))]"
    by (simp add: lod_entries_def lod_value_new_parser lod_texts_tie)
      (simp add: asc_def)
qed

lemma raw_header_tie:
  "raw_header (parse_header_text tie_stone) =
     open_marker @ [10] @ asc ''border_hash: 00000078''
     @ [10] @ asc ''glow_channel: context''
     @ [10] @ asc ''stone_type: clipboard''
     @ [10] @ asc ''created: 2026-01-01T00:00:00.000Z''
     @ [10] @ asc ''source_agent: user''
     @ [10] @ asc ''lod_count: 2''
     @ [10] @ asc ''fortune: context:general:simple''
     @ [10] @ separator"
  by (simp add: parse_header_text_def tie_stone_val Let_def)
    (simp add: header_line_def indexOf_def parseInt10_def is_digit_def digits_value_def
      empty_header_def Let_def eval_text)

lemma header_tokens_tie: "estimateTokens (raw_header (parse_header_text tie_stone)) = 12"
  by (simp add: raw_header_tie estimateTokens_def word_count_def)
    (simp add: eval_text eval_rec)

lemma level_tokens_tie:
  "estimateTokens (asc ''a a a a a a'') = 5"
  "estimateTokens (asc ''a a a a a a'' @ 10 # 10 # asc ''a a a a a a a a a a a a a a a a a a a a a a a a a a a a a a a a a a a a a a a a a a a a a a a'') = 40"
  by (simp_all add: estimateTokens_def word_count_def eval_text eval_rec)

lemma savings_tie:
  "fst (getTokenSavings new_parser (JStr tie_stone) 0)
       = Inr \<lparr>saved = 23, percentage = 57, headerTokens = 12,
              loadedTokens = Some 17, fullTokens = 40\<rparr>"
proof -
  have pct: "round_percentage 23 40 = 57" by (simp add: eval_double)
  show ?thesis
    unfolding getTokenSavings_stone [OF tie_isQAStone, of 0 new_parser, simplified]
      entries_tie header_value_new_parser header_tokens_tie Let_def
    by (simp add: level_tokens_tie pct)
qed

section \<open>The double arithmetic of the percentage\<close>

text \<open>The double arithmetic: each rounding is within half a unit in the last place.\<close>

lemma bit_length_bounds:
  "0 < n \<Longrightarrow> 1 \<le> bit_length n \<and> 2 ^ nat (bit_length n - 1) \<le> n \<and> n < 2 ^ nat (bit_length n)"
proof (induction n rule: bit_length.induct)
  case (1 n)
  show ?case
  proof (cases "n = 1")
    case True
    then show ?thesis by (simp add: bit_length.simps)
  next
    case False
    with "1.prems" have pos: "0 < n div 2" by simp
    with "1.prems" "1.IH" have ih: "1 \<le> bit_length (n div 2)"
      "2 ^ nat (bit_length (n div 2) - 1) \<le> n div 2" "n div 2 < 2 ^ nat (bit_length (n div 2))"
      by simp_all
    have bl: "bit_length n = 1 + bit_length (n div 2)"
      using "1.prems" by (simp add: bit_length.simps [of n])
    have e1: "nat (bit_length n - 1) = Suc (nat (bit_length (n div 2) - 1))"
      using ih(1) bl by simp
    have e2: "nat (bit_length n) = Suc (nat (bit_length (n div 2)))"
      using ih(1) bl by simp
    have "2 * 2 ^ nat (bit_length (n div 2) - 1) \<le> 2 * (n div 2)" using ih(2) by simp
    also have "\<dots> \<le> n" by simp
    finally have lo: "2 ^ nat (bit_length n - 1) \<le> n" by (simp add: e1)
    have "n \<le> 2 * (n div 2) + 1" by simp
    also have "\<dots> < 2 * 2 ^ nat (bit_length (n div 2))" using ih(3) by simp
    finally have hi: "n < 2 ^ nat (bit_length n)" by (simp add: e2)
    from lo hi bl ih(1) show ?thesis by simp
  qed
qed

lemma bit_length_real:
  assumes "0 < n"
  shows "2 powi (bit_length n - 1) \<le> real_of_int n" and "real_of_int n < 2 powi (bit_length n)"
proof -
  from bit_length_bounds [OF assms] have b: "1 \<le> bit_length n"
    and lo: "2 ^ nat (bit_length n - 1) \<le> n" and hi: "n < 2 ^ nat (bit_length n)" by simp_all
  from lo have "real_of_int (2 ^ nat (bit_length n - 1)) \<le> real_of_int n"
    by (simp only: of_int_le_iff)
  then show "2 powi (bit_length n - 1) \<le> real_of_int n"
    using b by (simp add: power_int_def)
  from hi have "real_of_int n < real_of_int (2 ^ nat (bit_length n))"
    by (simp only: of_int_less_iff)
  then show "real_of_int n < 2 powi (bit_length n)"
    using b by (simp add: power_int_def)
qed


lemma binary_exponent_bounds:
  assumes "0 < n" and "0 < b"
  shows "2 powi (binary_exponent n b) \<le> real_of_int n / real_of_int b"
    and "real_of_int n / real_of_int b < 2 powi (binary_exponent n b + 1)"
proof -
  define d where "d = bit_length n - bit_length b"
  let ?q = "real_of_int n / real_of_int b"
  have rb: "0 < real_of_int b" and rn: "0 < real_of_int n" using assms by simp_all
  note bn = bit_length_real [OF assms(1)]
  note bb = bit_length_real [OF assms(2)]
  have up: "?q < 2 powi (d + 1)"
  proof -
    have "real_of_int n < 2 powi (bit_length n)" by (rule bn(2))
    also have "\<dots> = 2 powi (d + 1) * 2 powi (bit_length b - 1)"
      by (simp add: d_def power_int_add [symmetric])
    also have "\<dots> \<le> 2 powi (d + 1) * real_of_int b"
      using bb(1) by (intro mult_left_mono) simp_all
    finally show ?thesis using rb by (simp add: divide_less_eq)
  qed
  have low: "2 powi (d - 1) < ?q"
  proof -
    have "2 powi (d - 1) * real_of_int b < 2 powi (d - 1) * 2 powi (bit_length b)"
      using bb(2) by (intro mult_strict_left_mono) simp_all
    also have "\<dots> = 2 powi (bit_length n - 1)"
      by (simp add: d_def power_int_add [symmetric])
    also have "\<dots> \<le> real_of_int n" by (rule bn(1))
    finally show ?thesis using rb by (simp add: less_divide_eq)
  qed
  have cond: "(if 0 \<le> d then b * 2 ^ nat d \<le> n else b \<le> n * 2 ^ nat (- d)) \<longleftrightarrow> 2 powi d \<le> ?q"
  proof (cases "0 \<le> d")
    case True
    have "(b * 2 ^ nat d \<le> n) \<longleftrightarrow> (real_of_int (b * 2 ^ nat d) \<le> real_of_int n)"
      by (simp only: of_int_le_iff)
    also have "\<dots> \<longleftrightarrow> (2 powi d * real_of_int b \<le> real_of_int n)"
      using True by (simp add: power_int_def mult.commute)
    also have "\<dots> \<longleftrightarrow> 2 powi d \<le> ?q"
      using rb by (simp add: le_divide_eq)
    finally show ?thesis using True by simp
  next
    case False
    have p: "(2::real) powi d * 2 ^ nat (- d) = 1"
      using False by (simp add: power_int_def field_simps)
    have "(b \<le> n * 2 ^ nat (- d)) \<longleftrightarrow> (real_of_int b \<le> real_of_int (n * 2 ^ nat (- d)))"
      by (simp only: of_int_le_iff)
    also have "\<dots> \<longleftrightarrow> (real_of_int b \<le> real_of_int n * 2 ^ nat (- d))"
      by simp
    also have "\<dots> \<longleftrightarrow> (2 powi d * real_of_int b \<le> 2 powi d * (real_of_int n * 2 ^ nat (- d)))"
      by (simp add: mult_le_cancel_left_pos)
    also have "2 powi d * (real_of_int n * 2 ^ nat (- d)) = real_of_int n"
      using p by (simp add: mult.left_commute mult.commute)
    also have "(2 powi d * real_of_int b \<le> real_of_int n) \<longleftrightarrow> 2 powi d \<le> ?q"
      using rb by (simp add: le_divide_eq)
    finally show ?thesis using False by simp
  qed
  show "2 powi (binary_exponent n b) \<le> ?q"
  proof (cases "2 powi d \<le> ?q")
    case True
    with cond show ?thesis by (simp add: binary_exponent_def d_def [symmetric] Let_def)
  next
    case False
    with cond have "binary_exponent n b = d - 1"
      by (simp add: binary_exponent_def d_def [symmetric] Let_def)
    with low show ?thesis by simp
  qed
  show "?q < 2 powi (binary_exponent n b + 1)"
  proof (cases "2 powi d \<le> ?q")
    case True
    with cond have "binary_exponent n b = d"
      by (simp add: binary_exponent_def d_def [symmetric] Let_def)
    with up show ?thesis by simp
  next
    case False
    with cond have "binary_exponent n b = d - 1"
      by (simp add: binary_exponent_def d_def [symmetric] Let_def)
    with False show ?thesis by simp
  qed
qed

lemma round_half_even_error:
  assumes "0 < den"
  shows "\<bar>real_of_int (round_half_even num den) - real_of_int num / real_of_int den\<bar> \<le> 1 / 2"
proof -
  define q where "q = num div den"
  define r where "r = num mod den"
  have num: "num = q * den + r" by (simp add: q_def r_def)
  have r: "0 \<le> r" "r < den" using assms by (simp_all add: r_def)
  have rd: "0 < real_of_int den" using assms by simp
  have frac: "real_of_int num / real_of_int den = real_of_int q + real_of_int r / real_of_int den"
    using rd by (simp add: num field_simps)
  have f0: "0 \<le> real_of_int r / real_of_int den" using r rd by simp
  have f1: "real_of_int r / real_of_int den < 1" using r rd by simp
  consider "2 * r < den" | "den < 2 * r" | "2 * r = den" by linarith
  then show ?thesis
  proof cases
    case 1
    then have "round_half_even num den = q"
      by (simp add: round_half_even_def q_def r_def Let_def)
    moreover from 1 have "real_of_int (2 * r) < real_of_int den" by (simp only: of_int_less_iff)
    then have "real_of_int r / real_of_int den < 1 / 2" using rd by (simp add: divide_less_eq)
    ultimately show ?thesis using f0 by (simp add: frac)
  next
    case 2
    then have "round_half_even num den = q + 1"
      by (simp add: round_half_even_def q_def r_def Let_def)
    moreover from 2 have "real_of_int den < real_of_int (2 * r)" by (simp only: of_int_less_iff)
    then have "1 / 2 < real_of_int r / real_of_int den" using rd by (simp add: less_divide_eq)
    ultimately show ?thesis using f1 by (simp add: frac)
  next
    case 3
    then have res: "round_half_even num den = q \<or> round_half_even num den = q + 1"
      by (simp add: round_half_even_def q_def r_def Let_def)
    from 3 have "real_of_int den = 2 * real_of_int r"
      using arg_cong [OF 3, of real_of_int] by simp
    with rd have h: "real_of_int r / real_of_int den = 1 / 2" by simp
    have eq: "real_of_int num / real_of_int den = real_of_int q + 1 / 2"
      by (simp only: frac h)
    from res show ?thesis
    proof
      assume "round_half_even num den = q"
      then show ?thesis by (simp add: eq)
    next
      assume "round_half_even num den = q + 1"
      then show ?thesis by (simp add: eq)
    qed
  qed
qed


lemma to_double_error:
  assumes "0 < b"
  shows "\<bar>double_value (to_double a b) - real_of_int a / real_of_int b\<bar>
     \<le> \<bar>real_of_int a / real_of_int b\<bar> / 2 ^ 53"
proof (cases "a = 0")
  case True
  then show ?thesis by (simp add: to_double_def double_value_def)
next
  case False
  define n where "n = \<bar>a\<bar>"
  define e where "e = binary_exponent n b"
  define s where "s = 52 - e"
  define m where "m = (if 0 \<le> s then round_half_even (n * 2 ^ nat s) b
                  else round_half_even n (b * 2 ^ nat (- s)))"
  define t where "t = real_of_int n / real_of_int b * 2 powi s"
  have n: "0 < n" using False by (simp add: n_def)
  have rb: "0 < real_of_int b" using assms by simp
  have td: "to_double a b = (sgn a * m, - s)"
    using False by (simp add: to_double_def Let_def n_def e_def s_def m_def)
  have mt: "\<bar>real_of_int m - t\<bar> \<le> 1 / 2"
  proof (cases "0 \<le> s")
    case True
    have "real_of_int (n * 2 ^ nat s) / real_of_int b = t"
      using True by (simp add: t_def power_int_def)
    moreover have "m = round_half_even (n * 2 ^ nat s) b" using True by (simp add: m_def)
    ultimately show ?thesis using round_half_even_error [OF assms, of "n * 2 ^ nat s"] by simp
  next
    case neg: False
    have "real_of_int n / real_of_int (b * 2 ^ nat (- s)) = t"
      using neg by (simp add: t_def power_int_def field_simps)
    moreover have "m = round_half_even n (b * 2 ^ nat (- s))" using neg by (simp add: m_def)
    moreover have "0 < b * 2 ^ nat (- s)" using assms by simp
    ultimately show ?thesis using round_half_even_error [of "b * 2 ^ nat (- s)" n] by simp
  qed
  have unscale: "t * 2 powi (- s) = real_of_int n / real_of_int b"
    by (simp add: t_def power_int_minus)
  have sg: "real_of_int a = real_of_int (sgn a) * real_of_int n"
  proof -
    have "a = sgn a * n" by (simp add: n_def mult_sgn_abs)
    then have "real_of_int a = real_of_int (sgn a * n)" by (simp only:)
    then show ?thesis by (simp only: of_int_mult)
  qed
  have v: "double_value (to_double a b) = real_of_int (sgn a) * (real_of_int m * 2 powi (- s))"
    by (simp add: td double_value_def)
  have "real_of_int a / real_of_int b = real_of_int (sgn a) * (real_of_int n / real_of_int b)"
    by (subst sg) simp
  then have q: "real_of_int a / real_of_int b = real_of_int (sgn a) * (t * 2 powi (- s))"
    by (simp only: unscale)
  have "double_value (to_double a b) - real_of_int a / real_of_int b
      = real_of_int (sgn a) * ((real_of_int m - t) * 2 powi (- s))"
    unfolding v q by (simp only: right_diff_distrib left_diff_distrib)
  then have "\<bar>double_value (to_double a b) - real_of_int a / real_of_int b\<bar>
      = \<bar>real_of_int m - t\<bar> * 2 powi (- s)"
    using False by (simp add: abs_mult sgn_if)
  also have "\<dots> \<le> 1 / 2 * 2 powi (- s)"
    using mt by (intro mult_right_mono) simp_all
  also have "\<dots> = 2 powi e / 2 ^ 53"
  proof -
    have "(2::real) powi (- s) = 2 powi (e - 52)" by (simp add: s_def)
    also have "\<dots> = 2 powi e / 2 powi 52" by (rule power_int_diff) simp
    finally have "(2::real) powi (- s) = 2 powi e / 2 ^ 52" by simp
    then show ?thesis by simp
  qed
  also have "\<dots> \<le> (real_of_int n / real_of_int b) / 2 ^ 53"
    using binary_exponent_bounds(1) [OF n assms] by (simp add: e_def divide_right_mono)
  also have "real_of_int n / real_of_int b = \<bar>real_of_int a / real_of_int b\<bar>"
    using rb by (simp add: n_def abs_divide)
  finally show ?thesis .
qed


lemma times_100_error:
  "\<bar>double_value (times_100 d) - 100 * double_value d\<bar> \<le> \<bar>100 * double_value d\<bar> / 2 ^ 53"
proof -
  obtain m k where d: "d = (m, k)" by (cases d)
  show ?thesis
  proof (cases "0 \<le> k")
    case True
    define A where "A = 100 * m * 2 ^ nat k"
    have frac: "real_of_int A / real_of_int 1 = 100 * double_value d"
      using True by (simp add: A_def d double_value_def power_int_def)
    have t: "times_100 d = to_double A 1"
      using True by (simp add: d A_def)
    have "\<bar>double_value (to_double A 1) - real_of_int A / real_of_int 1\<bar>
        \<le> \<bar>real_of_int A / real_of_int 1\<bar> / 2 ^ 53"
      by (rule to_double_error) simp
    then show ?thesis unfolding t frac .
  next
    case False
    define A where "A = 100 * m"
    define B :: int where "B = 2 ^ nat (- k)"
    have frac: "real_of_int A / real_of_int B = 100 * double_value d"
      using False by (simp add: A_def B_def d double_value_def power_int_def field_simps)
    have t: "times_100 d = to_double A B"
      using False by (simp add: d A_def B_def)
    have "\<bar>double_value (to_double A B) - real_of_int A / real_of_int B\<bar>
        \<le> \<bar>real_of_int A / real_of_int B\<bar> / 2 ^ 53"
      by (rule to_double_error) (simp add: B_def)
    then show ?thesis unfolding t frac .
  qed
qed

lemma math_round_floor: "math_round d = \<lfloor>double_value d + 1 / 2\<rfloor>"
proof -
  obtain m k where d: "d = (m, k)" by (cases d)
  show ?thesis
  proof (cases "0 \<le> k")
    case True
    have "double_value d = real_of_int (m * 2 ^ nat k)"
      using True by (simp add: d double_value_def power_int_def)
    then have "\<lfloor>double_value d + 1 / 2\<rfloor> = m * 2 ^ nat k"
      by (simp only: floor_add_int [symmetric]) linarith
    with True show ?thesis by (simp add: d)
  next
    case False
    define j where "j = nat (- k)"
    have k: "nat (1 - k) = Suc j" using False by (simp add: j_def)
    have "double_value d + 1 / 2 = real_of_int m / 2 ^ j + 1 / 2"
      using False by (simp add: d double_value_def power_int_def j_def field_simps)
    also have "\<dots> = real_of_int (2 * m + 2 ^ j) / real_of_int (2 ^ Suc j)"
      by (simp add: field_simps)
    finally have "\<lfloor>double_value d + 1 / 2\<rfloor> = (2 * m + 2 ^ j) div 2 ^ Suc j"
      by (simp only: floor_divide_of_int_eq)
    with False show ?thesis by (simp add: d k j_def)
  qed
qed

text \<open>The code's percentage against the exact quotient.\<close>

lemma round_percentage_error:
  assumes "0 < fT"
  shows "\<bar>real_of_int (round_percentage sv fT) - 100 * real_of_int sv / real_of_int fT\<bar>
     \<le> 1 / 2 + \<bar>100 * real_of_int sv / real_of_int fT\<bar> / 2 ^ 51"
proof -
  define q where "q = real_of_int sv / real_of_int fT"
  define v where "v = double_value (to_double sv fT)"
  define y where "y = double_value (times_100 (to_double sv fT))"
  have a: "\<bar>v - q\<bar> \<le> \<bar>q\<bar> / 2 ^ 53"
    unfolding v_def q_def by (rule to_double_error [OF assms])
  have b: "\<bar>y - 100 * v\<bar> \<le> \<bar>100 * v\<bar> / 2 ^ 53"
    unfolding y_def v_def by (rule times_100_error)
  have "\<bar>v\<bar> \<le> \<bar>q\<bar> + \<bar>v - q\<bar>" by simp
  also have "\<dots> \<le> \<bar>q\<bar> + \<bar>q\<bar> / 2 ^ 53" using a by simp
  also have "\<dots> \<le> 2 * \<bar>q\<bar>" by simp
  finally have v2: "\<bar>v\<bar> \<le> 2 * \<bar>q\<bar>" .
  have "100 * v - 100 * q = 100 * (v - q)" by (simp add: algebra_simps)
  then have "\<bar>100 * v - 100 * q\<bar> = \<bar>100 * (v - q)\<bar>" by (simp only:)
  also have "\<dots> = \<bar>100\<bar> * \<bar>v - q\<bar>" by (rule abs_mult)
  finally have "\<bar>100 * v - 100 * q\<bar> = 100 * \<bar>v - q\<bar>" by simp
  then have "\<bar>y - 100 * q\<bar> \<le> \<bar>y - 100 * v\<bar> + 100 * \<bar>v - q\<bar>" by linarith
  also have "\<dots> \<le> \<bar>100 * v\<bar> / 2 ^ 53 + 100 * (\<bar>q\<bar> / 2 ^ 53)"
    using a b by (intro add_mono) simp_all
  also have "\<dots> \<le> 200 * \<bar>q\<bar> / 2 ^ 53 + 100 * (\<bar>q\<bar> / 2 ^ 53)"
    using v2 by (simp add: abs_mult)
  also have "\<dots> \<le> \<bar>100 * q\<bar> / 2 ^ 51" by (simp add: abs_mult)
  finally have yq: "\<bar>y - 100 * q\<bar> \<le> \<bar>100 * q\<bar> / 2 ^ 51" .
  have p: "round_percentage sv fT = \<lfloor>y + 1 / 2\<rfloor>"
    by (simp add: round_percentage_def math_round_floor y_def)
  have "\<bar>real_of_int \<lfloor>y + 1 / 2\<rfloor> - y\<bar> \<le> 1 / 2" by linarith
  with yq have "\<bar>real_of_int \<lfloor>y + 1 / 2\<rfloor> - 100 * q\<bar> \<le> 1 / 2 + \<bar>100 * q\<bar> / 2 ^ 51"
    by linarith
  then show ?thesis by (simp add: p q_def)
qed

lemma spec_percentage_floor:
  assumes "0 < fT"
  shows "spec_percentage sv fT = \<lfloor>100 * real_of_int sv / real_of_int fT + 1 / 2\<rfloor>"
proof -
  have "100 * real_of_int sv / real_of_int fT + 1 / 2
      = real_of_int (200 * sv + fT) / real_of_int (2 * fT)"
    using assms by (simp add: field_simps)
  then show ?thesis
    by (simp only: floor_divide_of_int_eq spec_percentage_def)
qed

lemma round_percentage_near_spec:
  assumes "0 < fT" and "\<bar>sv\<bar> \<le> 2 ^ 42"
  shows "\<bar>round_percentage sv fT - spec_percentage sv fT\<bar> \<le> 1"
proof -
  define x where "x = 100 * real_of_int sv / real_of_int fT"
  have fT1: "1 \<le> real_of_int fT" using assms(1) by simp
  have "\<bar>real_of_int sv\<bar> \<le> 2 ^ 42"
    using assms(2) by (metis of_int_abs of_int_le_iff of_int_numeral of_int_power)
  then have "\<bar>x\<bar> \<le> 100 * 2 ^ 42 / real_of_int fT"
    using assms(1) by (simp add: x_def abs_mult divide_right_mono)
  also have "\<dots> \<le> 100 * 2 ^ 42" using fT1 by (simp add: field_simps)
  finally have "\<bar>x\<bar> / 2 ^ 51 \<le> 1 / 4" by simp
  with round_percentage_error [OF assms(1), of sv]
  have "\<bar>real_of_int (round_percentage sv fT) - x\<bar> \<le> 3 / 4" by (simp add: x_def)
  moreover have "\<bar>real_of_int (spec_percentage sv fT) - x\<bar> \<le> 1 / 2"
    unfolding spec_percentage_floor [OF assms(1)] x_def by linarith
  ultimately have "\<bar>real_of_int (round_percentage sv fT) - real_of_int (spec_percentage sv fT)\<bar> < 2"
    by linarith
  then have "\<bar>real_of_int (round_percentage sv fT - spec_percentage sv fT)\<bar> < 2" by simp
  then have "\<bar>round_percentage sv fT - spec_percentage sv fT\<bar> < 2"
    by (metis of_int_abs of_int_less_iff of_int_numeral)
  then show ?thesis by simp
qed

section \<open>Token accounting\<close>

text \<open>
  Where C3 fails as stated. On the stone built from "Aa", with every level loaded,
  fullTokens is 3 and loadedTokens is 15, because only loadedTokens includes the 12 tokens
  of the header; saved is -12. On the stone with levels of 6 and 47 words, with level 0
  loaded, saved is 23 and fullTokens is 40: the doubles give \<open>(23 / 40) * 100 < 57.5\<close> and
  the percentage is 57, while \<open>round(100 * 23 / 40)\<close> is 58.
\<close>

theorem token_savings_claim_fails:
  "isQAStone (JStr stone_Aa)
   \<and> fst (getTokenSavings new_parser (JStr stone_Aa) 3)
       = Inr \<lparr>saved = - 12, percentage = - 400, headerTokens = 12,
              loadedTokens = Some 15, fullTokens = 3\<rparr>
   \<and> isQAStone (JStr tie_stone)
   \<and> fst (getTokenSavings new_parser (JStr tie_stone) 0)
       = Inr \<lparr>saved = 23, percentage = 57, headerTokens = 12,
              loadedTokens = Some 17, fullTokens = 40\<rparr>
   \<and> spec_percentage 23 40 = 58"
  using stones_isQAStone(1) tie_isQAStone savings_Aa savings_tie
  by (simp add: spec_percentage_def)

text \<open>
  C3, as amended: for every stone, every level from 0 to 3 and every state of the caches,
  getTokenSavings returns a result with all five fields in which
  \<open>loadedTokens >= headerTokens >= 0\<close>, \<open>saved = fullTokens - loadedTokens\<close> and
  \<open>fullTokens + headerTokens >= loadedTokens\<close> (fullTokens counts the texts of the levels
  without the header, loadedTokens counts the loaded levels and the header). The percentage
  is 0 when fullTokens is 0. When fullTokens is positive it is
  \<open>Math.round((saved / fullTokens) * 100)\<close> as the doubles compute it: a number within
  \<open>1/2 + |100 * saved / fullTokens| / 2^51\<close> of the exact \<open>100 * saved / fullTokens\<close>,
  and so, for \<open>|saved| <= 2^42\<close>, either \<open>round(100 * saved / fullTokens)\<close> or a
  neighbour of it.
\<close>

theorem token_savings_accounting:
  assumes "isQAStone c" and "lv \<le> 3"
  shows "\<exists>r lT. fst (getTokenSavings p c lv) = Inr r
     \<and> loadedTokens r = Some lT
     \<and> lT \<le> fullTokens r + headerTokens r
     \<and> headerTokens r \<le> lT
     \<and> 0 \<le> headerTokens r
     \<and> saved r = fullTokens r - lT
     \<and> 0 \<le> fullTokens r
     \<and> (fullTokens r = 0 \<longrightarrow> percentage r = 0)
     \<and> (0 < fullTokens r \<longrightarrow>
          percentage r = round_percentage (saved r) (fullTokens r)
          \<and> \<bar>real_of_int (percentage r)
                - 100 * real_of_int (saved r) / real_of_int (fullTokens r)\<bar>
              \<le> 1 / 2 + \<bar>100 * real_of_int (saved r) / real_of_int (fullTokens r)\<bar> / 2 ^ 51
          \<and> (\<bar>saved r\<bar> \<le> 2 ^ 42 \<longrightarrow>
               \<bar>percentage r - spec_percentage (saved r) (fullTokens r)\<bar> \<le> 1))"
proof -
  from assms(1) obtain s where c: "c = JStr s" by (cases c) simp_all
  have stone: "isQAStone (JStr s)" using assms(1) c by simp
  have small: "lv < 10" using assms(2) by simp
  define hT where "hT = estimateTokens (raw_header (header_value p s))"
  define full where "full = join [10, 10] (map (to_string \<circ> snd) (lod_entries p s [0..<4]))"
  define loaded where "loaded = join [10, 10] (map (to_string \<circ> snd) (lod_entries p s [0..<Suc lv]))"
  define fT where "fT = estimateTokens full"
  define sv where "sv = estimateTokens full - (estimateTokens loaded + hT)"
  have "prefix (lod_entries p s [0..<Suc lv]) (lod_entries p s [0..<4])"
    using assms(2) by (intro lod_entries_prefix upt_prefix)
  then have "prefix (map (to_string \<circ> snd) (lod_entries p s [0..<Suc lv]))
      (map (to_string \<circ> snd) (lod_entries p s [0..<4]))"
    by (rule map_mono_prefix)
  then have "prefix loaded full"
    unfolding loaded_def full_def by (rule prefix_join)
  then have mono: "estimateTokens loaded \<le> fT"
    unfolding fT_def by (rule estimateTokens_prefix)
  have h0: "0 \<le> hT" unfolding hT_def by (rule estimateTokens_nonneg)
  have l0: "0 \<le> estimateTokens loaded" by (rule estimateTokens_nonneg)
  have f0: "0 \<le> fT" unfolding fT_def by (rule estimateTokens_nonneg)
  have res: "fst (getTokenSavings p c lv) =
      Inr \<lparr>saved = sv, percentage = (if fT > 0 then round_percentage sv fT else 0),
           headerTokens = hT, loadedTokens = Some (estimateTokens loaded + hT),
           fullTokens = fT\<rparr>"
    unfolding c getTokenSavings_stone [OF stone small] Let_def hT_def full_def loaded_def
      fT_def sv_def ..
  have pct: "\<bar>real_of_int (round_percentage sv fT) - 100 * real_of_int sv / real_of_int fT\<bar>
      \<le> 1 / 2 + \<bar>100 * real_of_int sv / real_of_int fT\<bar> / 2 ^ 51" if "0 < fT"
    using that by (rule round_percentage_error)
  have near: "\<bar>round_percentage sv fT - spec_percentage sv fT\<bar> \<le> 1"
    if "0 < fT" and "\<bar>sv\<bar> \<le> 2 ^ 42"
    using that by (rule round_percentage_near_spec)
  have svd: "sv = fT - (estimateTokens loaded + hT)" by (simp add: sv_def fT_def)
  show ?thesis
    unfolding res using mono h0 l0 f0 pct near svd
    by (intro exI [of _ "\<lparr>saved = sv, percentage = (if fT > 0 then round_percentage sv fT else 0),
           headerTokens = hT, loadedTokens = Some (estimateTokens loaded + hT),
           fullTokens = fT\<rparr>"] exI [of _ "estimateTokens loaded + hT"]) simp
qed

theorem token_savings_accounting_witness:
  "isQAStone (JStr tie_stone) \<and> (0::nat) \<le> 3
   \<and> (\<exists>r lT. fst (getTokenSavings new_parser (JStr tie_stone) 0) = Inr r
     \<and> loadedTokens r = Some lT
     \<and> lT \<le> fullTokens r + headerTokens r
     \<and> headerTokens r \<le> lT
     \<and> 0 \<le> headerTokens r
     \<and> saved r = fullTokens r - lT
     \<and> 0 < fullTokens r
     \<and> \<bar>saved r\<bar> \<le> 2 ^ 42
     \<and> percentage r = round_percentage (saved r) (fullTokens r)
     \<and> \<bar>real_of_int (percentage r)
           - 100 * real_of_int (saved r) / real_of_int (fullTokens r)\<bar>
         \<le> 1 / 2 + \<bar>100 * real_of_int (saved r) / real_of_int (fullTokens r)\<bar> / 2 ^ 51
     \<and> \<bar>percentage r - spec_percentage (saved r) (fullTokens r)\<bar> \<le> 1)"
proof -
  from token_savings_accounting [OF tie_isQAStone, of 0 new_parser]
  obtain r lT where r: "fst (getTokenSavings new_parser (JStr tie_stone) 0) = Inr r"
    and props: "loadedTokens r = Some lT" "lT \<le> fullTokens r + headerTokens r"
      "headerTokens r \<le> lT" "0 \<le> headerTokens r" "saved r = fullTokens r - lT"
    and pct: "0 < fullTokens r \<longrightarrow>
          percentage r = round_percentage (saved r) (fullTokens r)
          \<and> \<bar>real_of_int (percentage r)
                - 100 * real_of_int (saved r) / real_of_int (fullTokens r)\<bar>
              \<le> 1 / 2 + \<bar>100 * real_of_int (saved r) / real_of_int (fullTokens r)\<bar> / 2 ^ 51
          \<and> (\<bar>saved r\<bar> \<le> 2 ^ 42 \<longrightarrow>
               \<bar>percentage r - spec_percentage (saved r) (fullTokens r)\<bar> \<le> 1)"
    by auto
  from r savings_tie have "r = \<lparr>saved = 23, percentage = 57, headerTokens = 12,
              loadedTokens = Some 17, fullTokens = 40\<rparr>" by simp
  then have v: "0 < fullTokens r" "\<bar>saved r\<bar> \<le> 2 ^ 42" by simp_all
  with pct have "percentage r = round_percentage (saved r) (fullTokens r)"
    and "\<bar>real_of_int (percentage r)
                - 100 * real_of_int (saved r) / real_of_int (fullTokens r)\<bar>
              \<le> 1 / 2 + \<bar>100 * real_of_int (saved r) / real_of_int (fullTokens r)\<bar> / 2 ^ 51"
    and "\<bar>percentage r - spec_percentage (saved r) (fullTokens r)\<bar> \<le> 1"
    by blast+
  with r props v tie_isQAStone show ?thesis by blast
qed

section \<open>The loop of extractLOD\<close>

text \<open>The loop of extractLOD: lines before the block, the marker line, the lines of the block.\<close>

lemma scan_lod_skip:
  "\<forall>l\<in>set pre. \<not> startsWith l m \<Longrightarrow>
   scan_lod m (pre @ rest) acc False = scan_lod m rest acc False"
  by (induction pre) simp_all

lemma scan_lod_marker:
  "scan_lod m ((m @ u) # rest) acc i = scan_lod m rest (trim u) True"
  by (simp add: startsWith_def)

lemma scan_lod_collect:
  assumes "\<forall>l\<in>set body. \<not> startsWith l m
      \<and> trim l \<noteq> separator \<and> \<not> startsWith l (asc ''LOD-'') \<and> l \<noteq> close_marker"
    and "\<not> startsWith stop m"
    and "trim stop = separator \<or> startsWith stop (asc ''LOD-'') \<or> stop = close_marker"
  shows "scan_lod m (body @ stop # rest) acc True = acc @ concat (map ((#) 10) body)"
  using assms by (induction body arbitrary: acc) simp_all

lemma split_char_join:
  "split_char 10 c = c0 # body \<Longrightarrow> c = c0 @ concat (map ((#) 10) body)"
proof (induction c arbitrary: c0 body)
  case Nil
  then show ?case by simp
next
  case (Cons x c)
  obtain p ps where p: "split_char 10 c = p # ps"
    using split_char_nonempty [of 10 c] by (cases "split_char 10 c") auto
  show ?case
  proof (cases "x = 10")
    case True
    with Cons.prems p have "c0 = []" "body = p # ps" by simp_all
    with Cons.IH [OF p] True show ?thesis by simp
  next
    case False
    with Cons.prems p have "c0 = x # p" "body = ps" by simp_all
    with Cons.IH [OF p] show ?thesis by simp
  qed
qed

lemma lod_marker_2: "lod_marker 2 = asc ''LOD-2:''"
  by (simp add: lod_marker_def dec_digit asc_def)

lemma starts_LOD2_imp_LOD: "startsWith l (asc ''LOD-2:'') \<Longrightarrow> startsWith l (asc ''LOD-'')"
  by (auto simp add: startsWith_def asc_def prefix_def)

section \<open>The lines of a stone with generated levels\<close>

text \<open>All the lines of a stone with heuristic levels and plain metadata.\<close>

lemma header_lines_not_LOD2:
  "\<not> startsWith open_marker (asc ''LOD-2:'')"
  "\<not> startsWith (asc ''border_hash'' @ 58 # 32 # v1) (asc ''LOD-2:'')"
  "\<not> startsWith (asc ''glow_channel'' @ 58 # 32 # v2) (asc ''LOD-2:'')"
  "\<not> startsWith (asc ''stone_type'' @ 58 # 32 # v3) (asc ''LOD-2:'')"
  "\<not> startsWith (asc ''created'' @ 58 # 32 # v4) (asc ''LOD-2:'')"
  "\<not> startsWith (asc ''source_agent'' @ 58 # 32 # v5) (asc ''LOD-2:'')"
  "\<not> startsWith (asc ''lod_count'' @ 58 # 32 # v6) (asc ''LOD-2:'')"
  "\<not> startsWith (asc ''fortune'' @ 58 # 32 # v7) (asc ''LOD-2:'')"
  "\<not> startsWith separator (asc ''LOD-2:'')"
  "\<not> startsWith close_marker (asc ''LOD-2:'')"
  by (simp_all add: startsWith_def asc_def open_marker_val close_marker_val separator_def)

lemma lines_buildStone_generated:
  assumes "lods opts = None" and "plain_metadata ts opts"
  shows "\<exists>hdr. (\<forall>l\<in>set hdr. \<not> startsWith l (asc ''LOD-2:''))
     \<and> split_char 10 (buildStone ts opts) =
         hdr @ (if content opts = [] then [close_marker]
                else split_char 10 (asc ''LOD-0: '' @ heuristic_lod0 (content opts)) @ [separator]
                   @ split_char 10 (asc ''LOD-1: '' @ heuristic_lod1 (content opts)) @ [separator]
                   @ split_char 10 (asc ''LOD-2: '' @ content opts) @ [separator, close_marker])"
proof -
  define L1 where "L1 = asc ''border_hash'' @ 58 # 32 # generateHash (content opts)"
  define L2 where "L2 = asc ''glow_channel'' @ 58 # 32 # glow_channel_of opts"
  define L3 where "L3 = asc ''stone_type'' @ 58 # 32 # stone_type_of opts"
  define L4 where "L4 = asc ''created'' @ 58 # 32 # ts"
  define L5 where "L5 = asc ''source_agent'' @ 58 # 32 # source_agent_of opts"
  define L6 where "L6 = asc ''lod_count'' @ 58 # 32 # dec (length (filter (\<lambda>v. v \<noteq> [])
           (map snd (generateLODs (content opts)))))"
  define L7 where "L7 = asc ''fortune'' @ 58 # 32 # calculateFortune (content opts) (glow_channel_of opts)"
  define B where "B = lod_blocks (generateLODs (content opts)) [0..<4]"
  define X0 where "X0 = asc ''LOD-0: '' @ heuristic_lod0 (content opts)"
  define X1 where "X1 = asc ''LOD-1: '' @ heuristic_lod1 (content opts)"
  define X2 where "X2 = asc ''LOD-2: '' @ content opts"
  define hdr where "hdr = [open_marker, L1, L2, L3, L4, L5, L6, L7, separator]"
  have shape: "buildStone ts opts =
      open_marker @ 10 # L1 @ 10 # L2 @ 10 # L3 @ 10 # L4 @ 10 # L5 @ 10 # L6 @ 10 # L7
        @ 10 # separator @ B @ 10 # close_marker"
    using assms(1)
    by (simp add: buildStone_def Let_def L1_def L2_def L3_def L4_def L5_def L6_def L7_def B_def
        asc_def)
  have s: "10 \<notin> set open_marker" "10 \<notin> set L1" "10 \<notin> set L2" "10 \<notin> set L3" "10 \<notin> set L4"
    "10 \<notin> set L5" "10 \<notin> set L6" "10 \<notin> set L7" "10 \<notin> set separator" "10 \<notin> set close_marker"
    using assms(2) single_line_generateHash [of "content opts"]
      single_line_dec [of "length (filter (\<lambda>v. v \<noteq> []) (map snd (generateLODs (content opts))))"]
      single_line_calculateFortune [of "glow_channel_of opts" "content opts"]
    by (simp_all add: L1_def L2_def L3_def L4_def L5_def L6_def L7_def plain_metadata_def
        single_line_def asc_def open_marker_val close_marker_val separator_def)
  have hdr_ok: "\<forall>l\<in>set hdr. \<not> startsWith l (asc ''LOD-2:'')"
    unfolding hdr_def L1_def L2_def L3_def L4_def L5_def L6_def L7_def
    using header_lines_not_LOD2 by simp
  have blocks: "B = (if content opts = [] then []
      else 10 # X0 @ 10 # separator @ 10 # X1 @ 10 # separator @ 10 # X2 @ 10 # separator)"
    unfolding B_def X0_def X1_def X2_def lod_blocks_generated by simp
  have "split_char 10 (buildStone ts opts) =
      hdr @ (if content opts = [] then [close_marker]
             else split_char 10 X0 @ [separator] @ split_char 10 X1 @ [separator]
                @ split_char 10 X2 @ [separator, close_marker])"
  proof (cases "content opts = []")
    case True
    then have "B = []" by (simp add: blocks)
    then show ?thesis
      unfolding shape hdr_def using True by (simp add: split_char_line s split_char_single)
  next
    case False
    then have b: "B = 10 # X0 @ 10 # separator @ 10 # X1 @ 10 # separator @ 10 # X2 @ 10 # separator"
      by (simp add: blocks)
    have tail: "split_char 10 (X0 @ 10 # separator @ 10 # X1 @ 10 # separator @ 10 # X2
          @ 10 # separator @ 10 # close_marker)
        = split_char 10 X0 @ [separator] @ split_char 10 X1 @ [separator]
          @ split_char 10 X2 @ [separator, close_marker]"
      by (simp add: split_char_append split_char_line s split_char_single)
    show ?thesis
      unfolding shape hdr_def b using False
      by (simp add: split_char_line s tail)
  qed
  with hdr_ok show ?thesis
    unfolding X0_def X1_def X2_def by blast
qed

section \<open>Level 2 of a stone with generated levels\<close>

text \<open>No later line of a generated level starts a level block.\<close>

lemma block_lines_not_LOD2:
  assumes occ: "sublist (10 # asc ''LOD-'') t \<Longrightarrow> sublist (10 # asc ''LOD-'') c"
    and safe: "round_trip_safe c"
    and k: "10 \<notin> set k" "\<not> prefix (asc ''LOD-2:'') k" "length k \<ge> 6"
  shows "\<forall>l\<in>set (split_char 10 (k @ t)). \<not> startsWith l (asc ''LOD-2:'')"
proof
  fix l assume l: "l \<in> set (split_char 10 (k @ t))"
  have lines: "split_char 10 (k @ t) = (k @ hd (split_char 10 t)) # tl (split_char 10 t)"
    using k(1) by (rule split_char_prepend)
  show "\<not> startsWith l (asc ''LOD-2:'')"
  proof
    assume st: "startsWith l (asc ''LOD-2:'')"
    from l lines consider "l = k @ hd (split_char 10 t)" | "l \<in> set (tl (split_char 10 t))"
      by auto
    then show False
    proof cases
      case 1
      with st have "prefix (asc ''LOD-2:'') (k @ hd (split_char 10 t))"
        by (simp add: startsWith_def)
      then have "prefix (asc ''LOD-2:'') k"
      proof (auto simp add: prefix_append)
        fix us assume eq: "asc ''LOD-2:'' = k @ us"
        then have "length (asc ''LOD-2:'') = length k + length us"
          by (metis length_append)
        moreover have "length (asc ''LOD-2:'') = 6" by (simp add: asc_def)
        ultimately have "length us = 0" using k(3) by linarith
        then have "us = []" by simp
        with eq k(2) show "us = []" by simp
      qed
      with k(2) show False by simp
    next
      case 2
      from st have "prefix (asc ''LOD-'') l"
        using starts_LOD2_imp_LOD by (simp add: startsWith_def)
      with 2 have "sublist (10 # asc ''LOD-'') t"
        by (rule line_start_sublist)
      then have "sublist (10 # asc ''LOD-'') c"
        by (rule occ)
      then obtain l' where "l' \<in> set (tl (split_char 10 c))" and "prefix (asc ''LOD-'') l'"
        using sublist_line_start [of "asc ''LOD-''" c] by (auto simp add: asc_def)
      with safe show False
        by (auto simp add: round_trip_safe_def startsWith_def)
    qed
  qed
qed

lemma trim_leading_space: "trim (32 # s) = trim s"
  by (simp add: trim_def trimStart_def is_space_def)

lemma safe_first_line:
  assumes "round_trip_safe c" and "c \<noteq> []" and "split_char 10 c = c0 # body"
  shows "trim c0 = c0" and "trim c = c"
proof -
  from assms(1,2) have ends: "\<not> is_space (hd c)" "\<not> is_space (last c)"
    by (simp_all add: round_trip_safe_def)
  from assms(3) have c: "c = c0 @ concat (map ((#) 10) body)"
    by (rule split_char_join)
  have "is_space 10" by (simp add: is_space_def)
  have c0: "c0 \<noteq> []"
  proof
    assume "c0 = []"
    with c assms(2) have "hd c = 10" by (cases body) auto
    with ends(1) \<open>is_space 10\<close> show False by simp
  qed
  then have "hd c0 = hd c" using c by (cases c0) (simp, metis hd_append2 list.distinct(1))
  then have "\<not> is_space (hd c0)" using ends(1) by simp
  moreover from assms(1,3) c0 have "\<not> is_space (last c0)"
    by (simp add: round_trip_safe_def)
  ultimately show "trim c0 = c0" using c0 by (intro trim_id)
  from assms(2) ends show "trim c = c" by (intro trim_id)
qed

lemma lod_text_generated:
  assumes "lods opts = None" and "plain_metadata ts opts" and safe: "round_trip_safe (content opts)"
  shows "lod_text (buildStone ts opts) 2 = content opts"
proof -
  let ?c = "content opts"
  let ?m = "asc ''LOD-2:''"
  obtain hdr where hdr: "\<forall>l\<in>set hdr. \<not> startsWith l ?m"
    and lines: "split_char 10 (buildStone ts opts) =
         hdr @ (if ?c = [] then [close_marker]
                else split_char 10 (asc ''LOD-0: '' @ heuristic_lod0 ?c) @ [separator]
                   @ split_char 10 (asc ''LOD-1: '' @ heuristic_lod1 ?c) @ [separator]
                   @ split_char 10 (asc ''LOD-2: '' @ ?c) @ [separator, close_marker])"
    using lines_buildStone_generated [OF assms(1,2)] by blast
  show ?thesis
  proof (cases "?c = []")
    case True
    have "\<forall>l\<in>set (hdr @ [close_marker]). \<not> startsWith l ?m"
      using hdr header_lines_not_LOD2(10) by simp
    then have "scan_lod ?m ((hdr @ [close_marker]) @ []) [] False = scan_lod ?m [] [] False"
      by (rule scan_lod_skip)
    then show ?thesis
      using True lines by (simp add: lod_text_def lod_marker_2 trim_Nil)
  next
    case False
    obtain c0 body where split: "split_char 10 ?c = c0 # body"
      using split_char_nonempty [of 10 ?c] by (cases "split_char 10 ?c") auto
    define pre where "pre = hdr @ split_char 10 (asc ''LOD-0: '' @ heuristic_lod0 ?c) @ [separator]
                   @ split_char 10 (asc ''LOD-1: '' @ heuristic_lod1 ?c) @ [separator]"
    have b0: "\<forall>l\<in>set (split_char 10 (asc ''LOD-0: '' @ heuristic_lod0 ?c)). \<not> startsWith l ?m"
      by (rule block_lines_not_LOD2 [OF heuristic_lod0_occurrence safe]) (simp_all add: asc_def)
    have b1: "\<forall>l\<in>set (split_char 10 (asc ''LOD-1: '' @ heuristic_lod1 ?c)). \<not> startsWith l ?m"
      by (rule block_lines_not_LOD2 [OF heuristic_lod1_occurrence safe]) (simp_all add: asc_def)
    have pre: "\<forall>l\<in>set pre. \<not> startsWith l ?m"
      unfolding pre_def using hdr b0 b1 header_lines_not_LOD2(9) by auto
    have "split_char 10 (asc ''LOD-2: '' @ ?c) = (asc ''LOD-2: '' @ c0) # body"
      using split_char_prepend [of 10 "asc ''LOD-2: ''" ?c] split by (simp add: asc_def)
    also have "asc ''LOD-2: '' @ c0 = ?m @ 32 # c0"
      by (simp add: asc_def)
    finally have all: "split_char 10 (buildStone ts opts) =
        pre @ (?m @ 32 # c0) # body @ separator # [close_marker]"
      using lines False by (simp add: pre_def)
    have body: "\<forall>l\<in>set body. \<not> startsWith l ?m
        \<and> trim l \<noteq> separator \<and> \<not> startsWith l (asc ''LOD-'') \<and> l \<noteq> close_marker"
      using safe split starts_LOD2_imp_LOD by (auto simp add: round_trip_safe_def)
    have first: "trim c0 = c0" and whole: "trim ?c = ?c"
      using safe_first_line [OF safe False split] by simp_all
    have "scan_lod ?m (split_char 10 (buildStone ts opts)) [] False
        = scan_lod ?m ((?m @ 32 # c0) # body @ separator # [close_marker]) [] False"
      unfolding all using pre by (rule scan_lod_skip)
    also have "\<dots> = scan_lod ?m (body @ separator # [close_marker]) (trim (32 # c0)) True"
      by (rule scan_lod_marker)
    also have "\<dots> = trim (32 # c0) @ concat (map ((#) 10) body)"
      using body header_lines_not_LOD2(9) by (rule scan_lod_collect) (simp add: trim_separator)
    also have "\<dots> = ?c"
      using split_char_join [OF split] by (simp add: trim_leading_space first)
    finally show ?thesis
      by (simp add: lod_text_def lod_marker_2 whole)
  qed
qed

section \<open>The round trip through buildStone and extractLOD\<close>

lemma hash_padded: "generateHash (asc '' a'') = asc ''00000441''"
  by code_simp

lemma fortune_padded:
  "calculateFortune (asc '' a'') (asc ''context'') = asc ''context:general:simple''"
  by (simp add: calculateFortune_def toLowerCase_def lower_unit_def test_words_def word_boundary_def
     is_word_char_def word_count_def Let_def upt_rec eval_text eval_rec)

lemma lods_padded:
  "generateLODs (asc '' a'') = [(0, asc '' a''), (1, asc '' a''), (2, asc '' a''), (3, [])]"
  by (simp add: generateLODs_def heuristic_lod0_def heuristic_lod1_def is_sentence_end_def Let_def
      eval_text eval_rec)

lemma padded_stone:
  "buildStone example_timestamp padded_options =
     open_marker @ [10] @ asc ''border_hash: 00000441''
     @ [10] @ asc ''glow_channel: context''
     @ [10] @ asc ''stone_type: clipboard''
     @ [10] @ asc ''created: 2026-01-01T00:00:00.000Z''
     @ [10] @ asc ''source_agent: user''
     @ [10] @ asc ''lod_count: 3''
     @ [10] @ asc ''fortune: context:general:simple''
     @ [10] @ separator
     @ [10] @ asc ''LOD-0:  a'' @ [10] @ separator
     @ [10] @ asc ''LOD-1:  a'' @ [10] @ separator
     @ [10] @ asc ''LOD-2:  a'' @ [10] @ separator
     @ [10] @ close_marker"
  by (simp add: padded_options_def buildStone_def example_timestamp_def
      glow_channel_of_def stone_type_of_def source_agent_of_def hash_padded fortune_padded
      lods_padded Let_def upt_rec)
    (simp add: eval_text eval_rec)

lemma lod_text_padded: "lod_text (buildStone example_timestamp padded_options) 2 = asc ''a''"
  by (simp add: lod_text_def lod_marker_def padded_stone; simp add: eval_text eval_rec)

lemma plain_padded: "plain_metadata example_timestamp padded_options"
  by (simp add: plain_metadata_def padded_options_def glow_channel_of_def stone_type_of_def
      source_agent_of_def single_line_def example_timestamp_def asc_def)

lemma round_trip_safe_example: "round_trip_safe example_content"
  by (simp add: round_trip_safe_def example_content_val; simp add: eval_text)

text \<open>
  Claim C1, counterexample.  Content that starts with a space, built with the generated
  levels and the default metadata: the block reads \<open>LOD-2:  a\<close>, extractLOD trims what
  follows the marker, and level 2 comes back as \<open>a\<close>, without the space.
\<close>

theorem padded_content_not_returned:
  "lods padded_options = None
   \<and> plain_metadata example_timestamp padded_options
   \<and> content padded_options = asc '' a''
   \<and> fst (extractLOD new_parser (JStr (buildStone example_timestamp padded_options)) 2)
       = JStr (asc ''a'')
   \<and> fst (extractLOD new_parser (JStr (buildStone example_timestamp padded_options)) 2)
       \<noteq> JStr (content padded_options)"
proof -
  have "fst (extractLOD new_parser (JStr (buildStone example_timestamp padded_options)) 2)
      = JStr (lod_text (buildStone example_timestamp padded_options) 2)"
    by (simp only: extractLOD_stone [OF isQAStone_buildStone]) (simp add: new_parser_def)
  then have "fst (extractLOD new_parser (JStr (buildStone example_timestamp padded_options)) 2)
      = JStr (asc ''a'')"
    by (simp only: lod_text_padded)
  moreover have "content padded_options = asc '' a''" "lods padded_options = None"
    by (simp_all add: padded_options_def)
  moreover have "asc ''a'' \<noteq> asc '' a''"
    by (simp add: asc_def)
  ultimately show ?thesis
    using plain_padded by simp
qed

text \<open>
  Claim C1, as it holds.  With the generated levels (no lods map), metadata free of line
  breaks and a fresh parser, extractLOD at level 2 returns the content of the stone
  whenever the content survives the line format: it has no white space at either end,
  its first line does not end in white space, and no later line starts with \<open>LOD-\<close>, is
  the close marker, or trims to the separator.  The empty content is included.
\<close>

theorem heuristic_round_trip:
  assumes "lods opts = None" and "plain_metadata ts opts" and "round_trip_safe (content opts)"
  shows "fst (extractLOD new_parser (JStr (buildStone ts opts)) 2) = JStr (content opts)"
proof -
  have "fst (extractLOD new_parser (JStr (buildStone ts opts)) 2)
      = JStr (lod_text (buildStone ts opts) 2)"
    by (simp only: extractLOD_stone [OF isQAStone_buildStone]) (simp add: new_parser_def)
  then show ?thesis
    by (simp only: lod_text_generated [OF assms])
qed

theorem heuristic_round_trip_witness:
  "lods example_options = None
   \<and> plain_metadata example_timestamp example_options
   \<and> round_trip_safe (content example_options)
   \<and> fst (extractLOD new_parser (JStr (buildStone example_timestamp example_options)) 2)
       = JStr example_content"
proof -
  have a: "lods example_options = None" and c: "content example_options = example_content"
    by (simp_all add: example_options_def)
  have b: "plain_metadata example_timestamp example_options"
    using single_line_example_timestamp by (rule plain_example)
  have d: "round_trip_safe (content example_options)"
    by (simp add: c round_trip_safe_example)
  from heuristic_round_trip [OF a b d] a b c d show ?thesis
    by simp
qed

end
